theory Spec2Isabelle
  imports Main "HOL-Library.Sublist"
begin

section \<open>waitForLine: racing a matching line against a timeout and termination\<close>

text \<open>
  \<^verbatim>\<open>waitForLine(process, inputStream, regex, timeout, timeoutError)\<close> returns a promise and
  registers four listeners and (when \<^verbatim>\<open>timeout\<close> is non-zero) a timer. Everything that
  happens afterwards is a callback, so the function is modelled as the state its closure
  holds and one handler per callback; the environment delivers events one at a time
  (single-threaded event loop).

  The regular expression is a parameter \<open>regex\<close>: \<^verbatim>\<open>line.match(regex)\<close> is \<open>regex line\<close>,
  \<open>None\<close> for \<^verbatim>\<open>null\<close> and \<open>Some m\<close> for the match object \<open>m\<close>.
\<close>

datatype wl_listener = RlLine | RlClose | ProcessExit | ProcessError

datatype wl_event =
    Line string            \<comment> \<open>\<^verbatim>\<open>rl\<close> emits \<^verbatim>\<open>'line'\<close>\<close>
  | RlClosed               \<comment> \<open>\<^verbatim>\<open>rl\<close> emits \<^verbatim>\<open>'close'\<close>\<close>
  | ProcessExited          \<comment> \<open>\<^verbatim>\<open>process\<close> emits \<^verbatim>\<open>'exit'\<close>\<close>
  | ProcessErrored string  \<comment> \<open>\<^verbatim>\<open>process\<close> emits \<^verbatim>\<open>'error'\<close>; the argument is \<^verbatim>\<open>error.message\<close>\<close>
  | TimerFired             \<comment> \<open>the timer set by \<^verbatim>\<open>setTimeout(onTimeout, timeout)\<close> expires\<close>

datatype 'm settled =
    Resolved 'm            \<comment> \<open>\<^verbatim>\<open>resolve(match)\<close>\<close>
  | RejectedTimeout        \<comment> \<open>\<^verbatim>\<open>reject(timeoutError)\<close>\<close>
  | RejectedError string   \<comment> \<open>\<^verbatim>\<open>reject(new Error(message))\<close>\<close>

record 'm wl_state =
  stderr :: string                  \<comment> \<open>\<^verbatim>\<open>let stderr = ''\<close>\<close>
  wl_listeners :: "wl_listener list"   \<comment> \<open>the array \<^verbatim>\<open>listeners\<close>: the handlers still registered\<close>
  timeoutId :: bool                 \<comment> \<open>truthiness of \<^verbatim>\<open>timeoutId\<close>\<close>
  timerArmed :: bool                \<comment> \<open>the timer is scheduled and not cleared\<close>
  promise :: "'m settled option"    \<comment> \<open>the returned promise; \<open>None\<close> while pending\<close>

definition newline :: string where
  "newline = [CHR 0x0A]"

fun join :: "string \<Rightarrow> string list \<Rightarrow> string" where
  "join sep [] = []"
| "join sep [x] = x"
| "join sep (x # y # ys) = x @ sep @ join sep (y # ys)"

definition troubleshooting :: string where
  "troubleshooting =
     ''TROUBLESHOOTING: https://github.com/Microsoft/playwright/blob/master/docs/troubleshooting.md''"

definition waitForLine :: "nat \<Rightarrow> 'm wl_state" where
  "waitForLine timeout =
     \<lparr> stderr = [],
       wl_listeners = [RlLine, RlClose, ProcessExit, ProcessError],
       timeoutId = (timeout \<noteq> 0),
       timerArmed = (timeout \<noteq> 0),
       promise = None \<rparr>"

text \<open>A promise settles once: \<^verbatim>\<open>resolve\<close> and \<^verbatim>\<open>reject\<close> on a settled promise do nothing.\<close>

definition settle :: "'m settled \<Rightarrow> 'm wl_state \<Rightarrow> 'm wl_state" where
  "settle r s = (case promise s of None \<Rightarrow> s\<lparr>promise := Some r\<rparr> | Some _ \<Rightarrow> s)"

text \<open>
  Modelled from the spec: \<^verbatim>\<open>helper.removeEventListeners\<close>, which lives in \<^verbatim>\<open>../helper\<close>
  as \<^verbatim>\<open>helper.addEventListener\<close> does. It detaches every listener of the array it is
  given and empties the array; it never throws and does nothing on an empty array.
\<close>

definition wl_removeEventListeners :: "'m wl_state \<Rightarrow> 'm wl_state" where
  "wl_removeEventListeners s = s\<lparr>wl_listeners := []\<rparr>"

text \<open>The local function \<^verbatim>\<open>cleanup\<close> of \<^verbatim>\<open>waitForLine\<close>.\<close>

definition wl_cleanup :: "'m wl_state \<Rightarrow> 'm wl_state" where
  "wl_cleanup s =
     (let s1 = (if timeoutId s then s\<lparr>timerArmed := False\<rparr> else s)
      in wl_removeEventListeners s1)"

definition failureMessage :: "string option \<Rightarrow> string \<Rightarrow> string" where
  "failureMessage error err =
     join newline
       [''Failed to launch browser!'' @ (case error of Some m \<Rightarrow> '' '' @ m | None \<Rightarrow> ''''),
        err,
        '''',
        troubleshooting,
        '''']"

definition onClose :: "string option \<Rightarrow> 'm wl_state \<Rightarrow> 'm wl_state" where
  "onClose error s =
     (let s1 = wl_cleanup s
      in settle (RejectedError (failureMessage error (stderr s1))) s1)"

definition onTimeout :: "'m wl_state \<Rightarrow> 'm wl_state" where
  "onTimeout s = settle RejectedTimeout (wl_cleanup s)"

definition onLine :: "(string \<Rightarrow> 'm option) \<Rightarrow> string \<Rightarrow> 'm wl_state \<Rightarrow> 'm wl_state" where
  "onLine regex line s =
     (let s1 = s\<lparr>stderr := stderr s @ line @ newline\<rparr>
      in case regex line of
           None \<Rightarrow> s1
         | Some m \<Rightarrow> settle (Resolved m) (wl_cleanup s1))"

text \<open>An event reaches its handler only while the handler is registered (the timer: armed).\<close>

fun wl_step :: "(string \<Rightarrow> 'm option) \<Rightarrow> 'm wl_state \<Rightarrow> wl_event \<Rightarrow> 'm wl_state" where
  "wl_step regex s (Line l) = (if RlLine \<in> set (wl_listeners s) then onLine regex l s else s)"
| "wl_step regex s RlClosed = (if RlClose \<in> set (wl_listeners s) then onClose None s else s)"
| "wl_step regex s ProcessExited =
     (if ProcessExit \<in> set (wl_listeners s) then onClose None s else s)"
| "wl_step regex s (ProcessErrored m) =
     (if ProcessError \<in> set (wl_listeners s) then onClose (Some m) s else s)"
| "wl_step regex s TimerFired = (if timerArmed s then onTimeout (s\<lparr>timerArmed := False\<rparr>) else s)"

definition wl_run :: "(string \<Rightarrow> 'm option) \<Rightarrow> nat \<Rightarrow> wl_event list \<Rightarrow> 'm wl_state" where
  "wl_run regex timeout evs = foldl (wl_step regex) (waitForLine timeout) evs"

text \<open>The lines delivered by a run of non-matching lines, as \<^verbatim>\<open>stderr\<close> accumulates them.\<close>

fun collected :: "wl_event list \<Rightarrow> string" where
  "collected [] = []"
| "collected (Line l # evs) = l @ newline @ collected evs"
| "collected (_ # evs) = collected evs"

text \<open>An event that leaves the race open: a line that does not match, or the expiry of a
  timer that was never set.\<close>

fun quiet :: "(string \<Rightarrow> 'm option) \<Rightarrow> nat \<Rightarrow> wl_event \<Rightarrow> bool" where
  "quiet regex timeout (Line l) = (regex l = None)"
| "quiet regex timeout TimerFired = (timeout = 0)"
| "quiet regex timeout _ = False"

fun terminationError :: "wl_event \<Rightarrow> string option option" where
  "terminationError RlClosed = Some None"
| "terminationError ProcessExited = Some None"
| "terminationError (ProcessErrored m) = Some (Some m)"
| "terminationError _ = None"

section \<open>launchProcess: the supervisor and its shutdown protocol\<close>

text \<open>
  \<^verbatim>\<open>launchProcess(options)\<close> spawns the child, registers its handlers and returns the two
  closures \<^verbatim>\<open>gracefullyClose\<close> and \<^verbatim>\<open>kill\<close>. The closure variables are the fields of
  \<open>state\<close>; each handler is a function on the state. What the code does to the outside
  world (the logger, the caller's callbacks, the operating system, the promises it hands
  out) is appended, in program order, to the field \<open>trace\<close>.

  The callbacks of the options (\<^verbatim>\<open>logger._log\<close>, \<^verbatim>\<open>onExit\<close>, \<^verbatim>\<open>attemptToGracefullyClose\<close>)
  are taken to return normally; \<^verbatim>\<open>attemptToGracefullyClose\<close> returns a promise that the
  environment settles later. \<^verbatim>\<open>env\<close> and \<^verbatim>\<open>cwd\<close> are handed to \<^verbatim>\<open>spawn\<close> unchanged
  and are left out.
\<close>

datatype stdio = Ignore | Pipe

record log_t =
  name :: string
  severity :: "string option"

definition browserLog :: log_t where
  "browserLog = \<lparr> name = ''browser'', severity = None \<rparr>"

definition browserStdOutLog :: log_t where
  "browserStdOutLog = \<lparr> name = ''browser:out'', severity = None \<rparr>"

definition browserStdErrLog :: log_t where
  "browserStdErrLog = \<lparr> name = ''browser:err'', severity = Some ''warning'' \<rparr>"

record options =
  executablePath :: string
  args :: "string list"
  handleSIGINT :: bool
  handleSIGTERM :: bool
  handleSIGHUP :: bool
  pipe :: bool
  tempDirectories :: "string list"

text \<open>The texts handed to the logger, by the template that builds them.\<close>

datatype message =
    Launching string "string list"              \<comment> \<open>\<^verbatim>\<open><launching> ${executablePath} ${args.join(' ')}\<close>\<close>
  | Launched nat                                \<comment> \<open>\<^verbatim>\<open><launched> pid=${pid}\<close>\<close>
  | ProcessDidExit "int option" "string option" \<comment> \<open>\<^verbatim>\<open><process did exit ${exitCode}, ${signal}>\<close>\<close>
  | ForcefullyClose                             \<comment> \<open>\<^verbatim>\<open><forecefully close>\<close>\<close>
  | GracefullyCloseStart                        \<comment> \<open>\<^verbatim>\<open><gracefully close start>\<close>\<close>
  | GracefullyCloseEnd                          \<comment> \<open>\<^verbatim>\<open><gracefully close end>\<close>\<close>
  | Kill                                        \<comment> \<open>\<^verbatim>\<open><kill>\<close>\<close>
  | Data string                                 \<comment> \<open>a line of the child's output, as it is\<close>

datatype stream = Stdout | Stderr

text \<open>The events of the host \<^verbatim>\<open>process\<close> object and the three handlers put on them.\<close>

datatype host_event = HostExit | SIGINT | SIGTERM | SIGHUP

datatype handler =
    KillProcessHandler        \<comment> \<open>\<^verbatim>\<open>killProcess\<close>\<close>
  | InterruptHandler          \<comment> \<open>\<^verbatim>\<open>() => gracefullyClose().then(() => process.exit(130))\<close>\<close>
  | GracefullyCloseHandler    \<comment> \<open>\<^verbatim>\<open>gracefullyClose\<close>\<close>

type_synonym listener = "host_event \<times> handler"

text \<open>Which closure a promise handed to a caller came from.\<close>

datatype caller =
    FirstClose      \<comment> \<open>\<^verbatim>\<open>gracefullyClose\<close>, entered with \<^verbatim>\<open>gracefullyClosing\<close> false\<close>
  | ReentrantClose  \<comment> \<open>\<^verbatim>\<open>gracefullyClose\<close>, entered with \<^verbatim>\<open>gracefullyClosing\<close> true\<close>
  | KillAndWait     \<comment> \<open>\<^verbatim>\<open>killAndWait\<close>\<close>

datatype exn = KillFailed | RemoveFailed string

datatype effect =
    Log log_t message                       \<comment> \<open>\<^verbatim>\<open>logger._log(log, message)\<close>\<close>
  | Spawn string "string list" bool "stdio list"
      \<comment> \<open>\<^verbatim>\<open>childProcess.spawn(executablePath, args, {detached, stdio})\<close>\<close>
  | ReadLines stream                        \<comment> \<open>\<^verbatim>\<open>readline.createInterface\<close> and \<^verbatim>\<open>.on('line', ...)\<close>\<close>
  | AddEventListener host_event handler     \<comment> \<open>\<^verbatim>\<open>helper.addEventListener(process, ...)\<close>\<close>
  | RemoveEventListeners "listener list"    \<comment> \<open>\<^verbatim>\<open>helper.removeEventListeners(listeners)\<close>\<close>
  | OnExit "int option" "string option"     \<comment> \<open>\<^verbatim>\<open>options.onExit(exitCode, signal)\<close>\<close>
  | AttemptToGracefullyClose                \<comment> \<open>\<^verbatim>\<open>options.attemptToGracefullyClose()\<close>\<close>
  | TaskKill nat                            \<comment> \<open>\<^verbatim>\<open>execSync(`taskkill /pid ${pid} /T /F`)\<close>\<close>
  | KillGroup nat                           \<comment> \<open>\<^verbatim>\<open>process.kill(-pid, 'SIGKILL')\<close>\<close>
  | RemoveFolderSync string                 \<comment> \<open>\<^verbatim>\<open>removeFolder.sync(dir)\<close>\<close>
  | RemoveFolderAsync string                \<comment> \<open>\<^verbatim>\<open>removeFolderAsync(dir)\<close>\<close>
  | ConsoleError string                     \<comment> \<open>\<^verbatim>\<open>console.error(err)\<close>, for the directory\<close>
  | FulfillClose                            \<comment> \<open>\<^verbatim>\<open>fulfillClose()\<close>\<close>
  | FulfillCleanup                          \<comment> \<open>\<^verbatim>\<open>fulfillCleanup()\<close>\<close>
  | Resolve caller nat                      \<comment> \<open>the promise of invocation \<open>n\<close> is resolved\<close>
  | Reject caller nat exn                   \<comment> \<open>the promise of invocation \<open>n\<close> is rejected\<close>
  | HostProcessExit nat                     \<comment> \<open>\<^verbatim>\<open>process.exit(130)\<close>\<close>
  | LaunchFulfilled                         \<comment> \<open>the promise of \<^verbatim>\<open>launchProcess\<close> resolves\<close>
  | LaunchRejected string
      \<comment> \<open>it rejects with \<^verbatim>\<open>'Failed to launch browser: ' + error\<close>; the argument is \<^verbatim>\<open>error\<close>\<close>

text \<open>Where an invocation of \<^verbatim>\<open>gracefullyClose\<close> or \<^verbatim>\<open>kill\<close> is suspended.\<close>

datatype pc =
    AwaitAttempt   \<comment> \<open>\<^verbatim>\<open>await options.attemptToGracefullyClose().catch(...)\<close>\<close>
  | AwaitCleanup   \<comment> \<open>\<^verbatim>\<open>await waitForCleanup\<close> in \<^verbatim>\<open>gracefullyClose\<close>\<close>
  | AwaitClose     \<comment> \<open>\<^verbatim>\<open>await waitForClose\<close> in \<^verbatim>\<open>gracefullyClose\<close>\<close>
  | KillWaiting    \<comment> \<open>the promise \<^verbatim>\<open>waitForCleanup\<close> returned by \<^verbatim>\<open>killAndWait\<close>\<close>
  | Settled        \<comment> \<open>the promise handed to the caller is settled\<close>

record invocation =
  caller :: caller   \<comment> \<open>the closure that was called\<close>
  pc :: pc
  thenExit :: bool   \<comment> \<open>the interrupt handler's \<^verbatim>\<open>.then(() => process.exit(130))\<close>\<close>

text \<open>What the operating system answers to the synchronous calls of \<^verbatim>\<open>killProcess\<close>.\<close>

record faults =
  killThrows :: bool                      \<comment> \<open>\<^verbatim>\<open>execSync\<close> or \<^verbatim>\<open>process.kill\<close> throws\<close>
  removeSyncThrows :: "string \<Rightarrow> bool"    \<comment> \<open>\<^verbatim>\<open>removeFolder.sync(dir)\<close> throws\<close>

record state =
  opts :: options
  win32 :: bool                   \<comment> \<open>\<^verbatim>\<open>process.platform === 'win32'\<close>\<close>
  pid :: nat                      \<comment> \<open>\<^verbatim>\<open>spawnedProcess.pid\<close>; 0 for \<^verbatim>\<open>undefined\<close>\<close>
  killed :: bool                  \<comment> \<open>\<^verbatim>\<open>spawnedProcess.killed\<close>\<close>
  exitObserver :: bool            \<comment> \<open>the \<^verbatim>\<open>once('exit', ...)\<close> handler is registered\<close>
  errorObserver :: bool           \<comment> \<open>the \<^verbatim>\<open>once('error', ...)\<close> handler is registered\<close>
  stdoutReader :: bool            \<comment> \<open>the \<^verbatim>\<open>'line'\<close> handler of \<^verbatim>\<open>stdout\<close> is attached\<close>
  stderrReader :: bool            \<comment> \<open>the \<^verbatim>\<open>'line'\<close> handler of \<^verbatim>\<open>stderr\<close> is attached\<close>
  processClosed :: bool
  closeFulfilled :: bool          \<comment> \<open>\<^verbatim>\<open>waitForClose\<close> is resolved\<close>
  cleanupFulfilled :: bool        \<comment> \<open>\<^verbatim>\<open>waitForCleanup\<close> is resolved\<close>
  removing :: "string list"       \<comment> \<open>the removals of \<^verbatim>\<open>cleanup()\<close> still in flight\<close>
  failed :: "string option"       \<comment> \<open>the value of \<^verbatim>\<open>failedPromise\<close>, once it has one\<close>
  launchSettled :: bool           \<comment> \<open>the promise of \<^verbatim>\<open>launchProcess\<close> is settled\<close>
  listeners :: "listener list"
  gracefullyClosing :: bool
  invocations :: "invocation list"  \<comment> \<open>the calls of \<^verbatim>\<open>gracefullyClose\<close> and \<^verbatim>\<open>kill\<close>, in order\<close>
  trace :: "effect list"

definition emit :: "effect \<Rightarrow> state \<Rightarrow> state" where
  "emit e s = s\<lparr>trace := trace s @ [e]\<rparr>"

text \<open>
  Modelled from the spec: \<^verbatim>\<open>helper.addEventListener\<close> and \<^verbatim>\<open>helper.removeEventListeners\<close>
  live in \<^verbatim>\<open>../helper\<close>. The first registers the handler and returns the registration,
  which the code stores in \<^verbatim>\<open>listeners\<close>; the second detaches every registration of the
  array and empties it, never throws, and does nothing on an empty array.
\<close>

definition addEventListener :: "host_event \<Rightarrow> handler \<Rightarrow> state \<Rightarrow> state" where
  "addEventListener ev h s = emit (AddEventListener ev h) (s\<lparr>listeners := listeners s @ [(ev, h)]\<rparr>)"

definition removeEventListeners :: "state \<Rightarrow> state" where
  "removeEventListeners s = emit (RemoveEventListeners (listeners s)) (s\<lparr>listeners := []\<rparr>)"

text \<open>
  \<^verbatim>\<open>cleanup\<close>: every directory's removal is started at once; a removal that fails is
  reported with \<^verbatim>\<open>console.error\<close> when it finishes and counts as finished.
\<close>

definition cleanup :: "state \<Rightarrow> state" where
  "cleanup s =
     (fold (\<lambda>dir. emit (RemoveFolderAsync dir)) (tempDirectories (opts s)) s)
       \<lparr>removing := tempDirectories (opts s)\<rparr>"

text \<open>
  The two \<^verbatim>\<open>try\<close> blocks of \<^verbatim>\<open>killProcess\<close>. A block returns \<open>Inl\<close> when a statement of
  it throws, and the statements after that one are not run.
\<close>

definition forceKill :: "faults \<Rightarrow> state \<Rightarrow> (exn + unit) \<times> state" where
  "forceKill f s =
     (let s1 = (if win32 s then emit (TaskKill (pid s)) s else emit (KillGroup (pid s)) s)
      in (if killThrows f then Inl KillFailed else Inr (), s1))"

fun removeFolders :: "faults \<Rightarrow> string list \<Rightarrow> state \<Rightarrow> (exn + unit) \<times> state" where
  "removeFolders f [] s = (Inr (), s)"
| "removeFolders f (dir # dirs) s =
     (let s1 = emit (RemoveFolderSync dir) s
      in if removeSyncThrows f dir then (Inl (RemoveFailed dir), s1)
         else removeFolders f dirs s1)"

text \<open>\<^verbatim>\<open>try { ... } catch (e) { }\<close>: whatever the block threw is dropped.\<close>

definition catchAll :: "(exn + unit) \<times> state \<Rightarrow> (exn + unit) \<times> state" where
  "catchAll r = (Inr (), snd r)"

definition killProcess :: "faults \<Rightarrow> state \<Rightarrow> (exn + unit) \<times> state" where
  "killProcess f s =
     (let s1 = emit (Log browserLog Kill) s;
          s2 = removeEventListeners s1;
          r3 = (if pid s2 \<noteq> 0 \<and> \<not> killed s2 \<and> \<not> processClosed s2
                then catchAll (forceKill f s2) else (Inr (), s2))
      in case fst r3 of
           Inl e \<Rightarrow> r3
         | Inr _ \<Rightarrow> catchAll (removeFolders f (tempDirectories (opts (snd r3))) (snd r3)))"

text \<open>
  \<^verbatim>\<open>process.exit(130)\<close>: the host process emits \<^verbatim>\<open>'exit'\<close>, which runs \<^verbatim>\<open>killProcess\<close> if
  it is still registered, and ends.
\<close>

definition hostExit :: "faults \<Rightarrow> state \<Rightarrow> state" where
  "hostExit f s =
     (if (HostExit, KillProcessHandler) \<in> set (listeners s) then snd (killProcess f s) else s)"

text \<open>
  The promise of invocation \<open>i\<close> settles; the interrupt handler then calls
  \<^verbatim>\<open>process.exit(130)\<close> if the promise was resolved. The host process ends there. The
  model does not stop: the handlers that run after \<open>HostProcessExit 130\<close> in a trace, in the
  same step or in a later one, are those that would have run had the host process gone on,
  so that a trace says more than the host process can do, never less.
\<close>

definition setPc :: "nat \<Rightarrow> pc \<Rightarrow> state \<Rightarrow> state" where
  "setPc i p s = s\<lparr>invocations := (invocations s)[i := (invocations s ! i)\<lparr>pc := p\<rparr>]\<rparr>"

definition resolve :: "faults \<Rightarrow> caller \<Rightarrow> nat \<Rightarrow> state \<Rightarrow> state" where
  "resolve f c i s =
     (let s1 = emit (Resolve c i) (setPc i Settled s)
      in if thenExit (invocations s ! i) then hostExit f (emit (HostProcessExit 130) s1) else s1)"

definition reject :: "caller \<Rightarrow> nat \<Rightarrow> exn \<Rightarrow> state \<Rightarrow> state" where
  "reject c i e s = emit (Reject c i e) (setPc i Settled s)"

text \<open>The code after an \<^verbatim>\<open>await\<close>, run when the awaited promise is resolved.\<close>

definition continue :: "faults \<Rightarrow> nat \<Rightarrow> state \<Rightarrow> state" where
  "continue f i s =
     (case pc (invocations s ! i) of
        AwaitCleanup \<Rightarrow> resolve f FirstClose i (emit (Log browserLog GracefullyCloseEnd) s)
      | AwaitClose \<Rightarrow> resolve f ReentrantClose i s
      | KillWaiting \<Rightarrow> resolve f KillAndWait i s
      | _ \<Rightarrow> s)"

definition awaitsClose :: "pc \<Rightarrow> bool" where
  "awaitsClose p \<longleftrightarrow> p = AwaitClose"

text \<open>
  Resolving a promise resumes the invocations that are suspended at program points of \<open>w\<close>,
  in the order they began.
\<close>

fun resumeUpTo :: "faults \<Rightarrow> (pc \<Rightarrow> bool) \<Rightarrow> nat \<Rightarrow> state \<Rightarrow> state" where
  "resumeUpTo f w 0 s = s"
| "resumeUpTo f w (Suc k) s =
     (let s1 = resumeUpTo f w k s
      in if w (pc (invocations s1 ! k)) then continue f k s1 else s1)"

definition resume :: "faults \<Rightarrow> (pc \<Rightarrow> bool) \<Rightarrow> state \<Rightarrow> state" where
  "resume f w s = resumeUpTo f w (length (invocations s)) s"

definition fulfillClose :: "state \<Rightarrow> state" where
  "fulfillClose s = emit FulfillClose (s\<lparr>closeFulfilled := True\<rparr>)"

text \<open>
  \<^verbatim>\<open>fulfillCleanup()\<close> resolves \<^verbatim>\<open>waitForCleanup\<close>. A promise that \<^verbatim>\<open>kill()\<close> returned is
  that very promise and is resolved with it; the code after \<^verbatim>\<open>await waitForCleanup\<close> in
  \<^verbatim>\<open>gracefullyClose\<close> runs from the microtask queue, after that.
\<close>

definition fulfillCleanup :: "faults \<Rightarrow> state \<Rightarrow> state" where
  "fulfillCleanup f s =
     (let s1 = emit FulfillCleanup (s\<lparr>cleanupFulfilled := True\<rparr>);
          s2 = resume f (\<lambda>p. p = KillWaiting) s1
      in resume f (\<lambda>p. p = AwaitCleanup) s2)"

text \<open>An invocation starts: it is given the next index.\<close>

definition invoke :: "caller \<Rightarrow> pc \<Rightarrow> bool \<Rightarrow> state \<Rightarrow> state" where
  "invoke c p ex s =
     s\<lparr>invocations := invocations s @ [\<lparr> caller = c, pc = p, thenExit = ex \<rparr>]\<rparr>"

definition gracefullyClose :: "faults \<Rightarrow> bool \<Rightarrow> state \<Rightarrow> state" where
  "gracefullyClose f ex s =
     (let i = length (invocations s) in
      if gracefullyClosing s then
        (let s1 = emit (Log browserLog ForcefullyClose) s;
             r2 = killProcess f s1
         in case fst r2 of
              Inl e \<Rightarrow> reject ReentrantClose i e (invoke ReentrantClose AwaitClose ex (snd r2))
            | Inr _ \<Rightarrow>
                (let s3 = invoke ReentrantClose AwaitClose ex (snd r2)
                 in if closeFulfilled s3 then continue f i s3 else s3))
      else
        (let s1 = s\<lparr>gracefullyClosing := True\<rparr>;
             s2 = emit (Log browserLog GracefullyCloseStart) s1;
             s3 = emit AttemptToGracefullyClose s2
         in invoke FirstClose AwaitAttempt ex s3))"

text \<open>
  The promise of \<^verbatim>\<open>attemptToGracefullyClose()\<close> settles: \<open>ok\<close> when it resolves, otherwise
  the \<^verbatim>\<open>.catch(() => killProcess())\<close> runs. Then the invocation goes on to
  \<^verbatim>\<open>await waitForCleanup\<close>.
\<close>

definition attemptSettled :: "faults \<Rightarrow> bool \<Rightarrow> nat \<Rightarrow> state \<Rightarrow> state" where
  "attemptSettled f ok i s =
     (let r1 = (if ok then (Inr (), s) else killProcess f s)
      in case fst r1 of
           Inl e \<Rightarrow> reject FirstClose i e (snd r1)
         | Inr _ \<Rightarrow>
             (let s2 = setPc i AwaitCleanup (snd r1)
              in if cleanupFulfilled s2 then continue f i s2 else s2))"

definition killAndWait :: "faults \<Rightarrow> state \<Rightarrow> state" where
  "killAndWait f s =
     (let i = length (invocations s);
          r1 = killProcess f s
      in case fst r1 of
           Inl e \<Rightarrow> reject KillAndWait i e (invoke KillAndWait KillWaiting False (snd r1))
         | Inr _ \<Rightarrow>
             (let s2 = invoke KillAndWait KillWaiting False (snd r1)
              in if cleanupFulfilled s2 then continue f i s2 else s2))"

text \<open>
  The handler of the child's \<^verbatim>\<open>'exit'\<close>. The invocations waiting for \<^verbatim>\<open>waitForClose\<close>
  resume once the handler has returned; \<^verbatim>\<open>cleanup()\<close> has started the removals by then.
  \<^verbatim>\<open>fulfillCleanup\<close> runs when the last removal has finished, at once when there is none.
\<close>

definition onProcessExit :: "faults \<Rightarrow> int option \<Rightarrow> string option \<Rightarrow> state \<Rightarrow> state" where
  "onProcessExit f exitCode signal s =
     (let s1 = emit (Log browserLog (ProcessDidExit exitCode signal)) s;
          s2 = s1\<lparr>processClosed := True\<rparr>;
          s3 = removeEventListeners s2;
          s4 = emit (OnExit exitCode signal) s3;
          s5 = fulfillClose s4;
          s6 = cleanup s5;
          s7 = resume f awaitsClose s6
      in if removing s7 = [] then fulfillCleanup f s7 else s7)"

text \<open>
  The two continuations of \<^verbatim>\<open>cleanup().then(() => failedPromise).then(e => Promise.reject(e))\<close>:
  the launch is rejected when the removals have finished and \<^verbatim>\<open>failedPromise\<close> has its value.
\<close>

definition rejectLaunch :: "state \<Rightarrow> state" where
  "rejectLaunch s =
     (case failed s of
        Some e \<Rightarrow>
          (if removing s = [] \<and> \<not> launchSettled s
           then emit (LaunchRejected e) (s\<lparr>launchSettled := True\<rparr>) else s)
      | None \<Rightarrow> s)"

text \<open>A removal started by \<^verbatim>\<open>cleanup()\<close> finishes; \<open>ok\<close> is false when it failed.\<close>

definition removeFolderDone :: "faults \<Rightarrow> string \<Rightarrow> bool \<Rightarrow> state \<Rightarrow> state" where
  "removeFolderDone f dir ok s =
     (let s1 = s\<lparr>removing := remove1 dir (removing s)\<rparr>;
          s2 = (if ok then s1 else emit (ConsoleError dir) s1)
      in if removing s2 \<noteq> [] then s2
         else if pid s2 = 0 then rejectLaunch s2
         else fulfillCleanup f s2)"

definition stdioOf :: "options \<Rightarrow> stdio list" where
  "stdioOf options = (if pipe options then [Ignore, Pipe, Pipe, Pipe, Pipe] else [Ignore, Pipe, Pipe])"

definition blank :: "bool \<Rightarrow> options \<Rightarrow> state" where
  "blank w options =
     \<lparr> opts = options, win32 = w, pid = 0, killed = False, exitObserver = False,
       errorObserver = False, stdoutReader = False, stderrReader = False,
       processClosed = False, closeFulfilled = False, cleanupFulfilled = False,
       removing = [], failed = None, launchSettled = False, listeners = [],
       gracefullyClosing = False, invocations = [], trace = [] \<rparr>"

text \<open>
  \<^verbatim>\<open>launchProcess\<close> up to its \<^verbatim>\<open>return\<close>. \<open>w\<close> says whether the platform is win32 and \<open>p\<close>
  is the process id that \<^verbatim>\<open>spawn\<close> gives the child, 0 when it gives none.
\<close>

definition launchProcess :: "bool \<Rightarrow> options \<Rightarrow> nat \<Rightarrow> state" where
  "launchProcess w options p =
     (let s0 = blank w options;
          s1 = emit (Log browserLog (Launching (executablePath options) (args options))) s0;
          s2 = emit (Spawn (executablePath options) (args options) (\<not> w) (stdioOf options))
                 (s1\<lparr>pid := p\<rparr>)
      in if pid s2 = 0 then
           rejectLaunch (cleanup (s2\<lparr>errorObserver := True\<rparr>))
         else
           (let s3 = emit (Log browserLog (Launched (pid s2))) s2;
                s4 = emit (ReadLines Stdout) (s3\<lparr>stdoutReader := True\<rparr>);
                s5 = emit (ReadLines Stderr) (s4\<lparr>stderrReader := True\<rparr>);
                s6 = s5\<lparr>exitObserver := True\<rparr>;
                s7 = addEventListener HostExit KillProcessHandler s6;
                s8 = (if handleSIGINT options then addEventListener SIGINT InterruptHandler s7
                      else s7);
                s9 = (if handleSIGTERM options
                      then addEventListener SIGTERM GracefullyCloseHandler s8 else s8);
                s10 = (if handleSIGHUP options
                       then addEventListener SIGHUP GracefullyCloseHandler s9 else s9)
            in emit LaunchFulfilled (s10\<lparr>launchSettled := True\<rparr>)))"

text \<open>What can happen after \<^verbatim>\<open>launchProcess\<close> has returned.\<close>

datatype event =
    ChildExit "int option" "string option"  \<comment> \<open>\<^verbatim>\<open>spawnedProcess\<close> emits \<^verbatim>\<open>'exit'\<close>\<close>
  | ChildError string                       \<comment> \<open>\<^verbatim>\<open>spawnedProcess\<close> emits \<^verbatim>\<open>'error'\<close>\<close>
  | ChildEnds
      \<comment> \<open>the child process ends; \<^verbatim>\<open>spawnedProcess\<close> emits \<^verbatim>\<open>'exit'\<close> later, as \<open>ChildExit\<close>\<close>
  | ChildKillSent                           \<comment> \<open>\<^verbatim>\<open>spawnedProcess.killed\<close> becomes true\<close>
  | StdoutLine string                       \<comment> \<open>\<^verbatim>\<open>stdout\<close> emits \<^verbatim>\<open>'line'\<close>\<close>
  | StderrLine string                       \<comment> \<open>\<^verbatim>\<open>stderr\<close> emits \<^verbatim>\<open>'line'\<close>\<close>
  | Host host_event                         \<comment> \<open>the host \<^verbatim>\<open>process\<close> emits the event\<close>
  | CallGracefullyClose                     \<comment> \<open>the caller calls \<^verbatim>\<open>gracefullyClose()\<close>\<close>
  | CallKill                                \<comment> \<open>the caller calls \<^verbatim>\<open>kill()\<close>\<close>
  | AttemptResolved                         \<comment> \<open>the promise of \<^verbatim>\<open>attemptToGracefullyClose()\<close> resolves\<close>
  | AttemptRejected                         \<comment> \<open>it rejects\<close>
  | RemoveFolderFinished string bool        \<comment> \<open>a \<^verbatim>\<open>removeFolderAsync(dir)\<close> finishes, well or not\<close>

text \<open>The invocation that waits for \<^verbatim>\<open>attemptToGracefullyClose()\<close>, if there is one.\<close>

definition attempting :: "state \<Rightarrow> nat option" where
  "attempting s =
     (case filter (\<lambda>i. pc (invocations s ! i) = AwaitAttempt) [0..<length (invocations s)] of
        [] \<Rightarrow> None
      | i # _ \<Rightarrow> Some i)"

text \<open>
  An event runs the handler registered for it, if one is. The launch result exists only
  when the launch has succeeded, so only then can the caller call its closures. The end of
  the child runs no handler and changes no variable: the code learns of it from \<^verbatim>\<open>'exit'\<close>.
\<close>

fun step :: "faults \<Rightarrow> state \<Rightarrow> event \<Rightarrow> state" where
  "step f s (ChildExit exitCode signal) =
     (if exitObserver s then onProcessExit f exitCode signal (s\<lparr>exitObserver := False\<rparr>) else s)"
| "step f s (ChildError error) =
     (if errorObserver s
      then rejectLaunch (s\<lparr>errorObserver := False, failed := Some error\<rparr>) else s)"
| "step f s ChildEnds = s"
| "step f s ChildKillSent = s\<lparr>killed := True\<rparr>"
| "step f s (StdoutLine data) =
     (if stdoutReader s then emit (Log browserStdOutLog (Data data)) s else s)"
| "step f s (StderrLine data) =
     (if stderrReader s then emit (Log browserStdErrLog (Data data)) s else s)"
| "step f s (Host HostExit) = hostExit f s"
| "step f s (Host SIGINT) =
     (if (SIGINT, InterruptHandler) \<in> set (listeners s) then gracefullyClose f True s else s)"
| "step f s (Host SIGTERM) =
     (if (SIGTERM, GracefullyCloseHandler) \<in> set (listeners s)
      then gracefullyClose f False s else s)"
| "step f s (Host SIGHUP) =
     (if (SIGHUP, GracefullyCloseHandler) \<in> set (listeners s)
      then gracefullyClose f False s else s)"
| "step f s CallGracefullyClose = (if pid s \<noteq> 0 then gracefullyClose f False s else s)"
| "step f s CallKill = (if pid s \<noteq> 0 then killAndWait f s else s)"
| "step f s AttemptResolved =
     (case attempting s of Some i \<Rightarrow> attemptSettled f True i s | None \<Rightarrow> s)"
| "step f s AttemptRejected =
     (case attempting s of Some i \<Rightarrow> attemptSettled f False i s | None \<Rightarrow> s)"
| "step f s (RemoveFolderFinished dir ok) =
     (if dir \<in> set (removing s) then removeFolderDone f dir ok s else s)"

text \<open>A run: the events in the order the event loop delivers them, each with the answers
  of the operating system during its handler.\<close>

fun run :: "state \<Rightarrow> (faults \<times> event) list \<Rightarrow> state" where
  "run s [] = s"
| "run s ((f, e) # evs) = run (step f s e) evs"

definition noFaults :: faults where
  "noFaults = \<lparr> killThrows = False, removeSyncThrows = (\<lambda>dir. False) \<rparr>"

subsection \<open>Inputs used in examples\<close>

definition plainOptions :: options where
  "plainOptions =
     \<lparr> executablePath = ''/usr/bin/browser'', args = [''--headless''], handleSIGINT = True,
       handleSIGTERM = False, handleSIGHUP = False, pipe = False,
       tempDirectories = [''/tmp/profile''] \<rparr>"

definition twoDirectories :: options where
  "twoDirectories = plainOptions\<lparr>tempDirectories := [''/tmp/a'', ''/tmp/b'']\<rparr>"

definition firstRemovalFails :: faults where
  "firstRemovalFails = \<lparr> killThrows = False, removeSyncThrows = (\<lambda>dir. dir = ''/tmp/a'') \<rparr>"

text \<open>One call of \<^verbatim>\<open>gracefullyClose\<close>.\<close>

definition closing :: "(faults \<times> event) list" where
  "closing = [(noFaults, CallGracefullyClose)]"

text \<open>The child exits and the removal of the temporary directory finishes.\<close>

definition exitedClean :: "(faults \<times> event) list" where
  "exitedClean =
     [(noFaults, ChildExit (Some 0) None), (noFaults, RemoveFolderFinished ''/tmp/profile'' True)]"

text \<open>A graceful close that works: the operation resolves, the child exits, the removal
  finishes.\<close>

definition closedGracefully :: "(faults \<times> event) list" where
  "closedGracefully =
     [(noFaults, CallGracefullyClose), (noFaults, AttemptResolved),
      (noFaults, ChildExit (Some 0) None),
      (noFaults, RemoveFolderFinished ''/tmp/profile'' True)]"

text \<open>Two calls of \<^verbatim>\<open>gracefullyClose\<close>, then the child exits; the removal has not finished.\<close>

definition closedTwice :: "(faults \<times> event) list" where
  "closedTwice =
     [(noFaults, CallGracefullyClose), (noFaults, CallGracefullyClose),
      (noFaults, ChildExit (Some 0) None)]"





section \<open>Notions used in the statements and proofs\<close>

subsection \<open>waitForLine\<close>

text \<open>The race is open: nothing has settled the promise, every listener is attached, and
  the timer is armed if one was asked for.\<close>

definition wl_open :: "nat \<Rightarrow> 'm wl_state \<Rightarrow> bool" where
  "wl_open timeout s \<longleftrightarrow>
     wl_listeners s = [RlLine, RlClose, ProcessExit, ProcessError] \<and>
     timeoutId s = (timeout \<noteq> 0) \<and> timerArmed s = (timeout \<noteq> 0) \<and> promise s = None"

text \<open>Nothing can reach a handler any more.\<close>

definition wl_done :: "'m wl_state \<Rightarrow> bool" where
  "wl_done s \<longleftrightarrow> wl_listeners s = [] \<and> \<not> timerArmed s"

subsection \<open>What the handlers append to the trace\<close>

text \<open>The removals that the loop of \<^verbatim>\<open>killProcess\<close> attempts: it stops after the first one
  that throws.\<close>

fun removeAttempts :: "faults \<Rightarrow> string list \<Rightarrow> effect list" where
  "removeAttempts f [] = []"
| "removeAttempts f (dir # dirs) =
     RemoveFolderSync dir # (if removeSyncThrows f dir then [] else removeAttempts f dirs)"

text \<open>The guard of \<^verbatim>\<open>killProcess\<close>.\<close>

definition alive :: "state \<Rightarrow> bool" where
  "alive s \<longleftrightarrow> pid s \<noteq> 0 \<and> \<not> killed s \<and> \<not> processClosed s"

text \<open>The effects of one call of \<^verbatim>\<open>killProcess\<close>.\<close>

definition killEffects :: "faults \<Rightarrow> state \<Rightarrow> effect list" where
  "killEffects f s =
     [Log browserLog Kill, RemoveEventListeners (listeners s)] @
     (if alive s then [if win32 s then TaskKill (pid s) else KillGroup (pid s)] else []) @
     removeAttempts f (tempDirectories (opts s))"

text \<open>The effects of \<^verbatim>\<open>process.exit(130)\<close> after invocation \<open>i\<close> has resolved, and of
  resuming invocation \<open>i\<close>.\<close>

definition exitEffects :: "faults \<Rightarrow> nat \<Rightarrow> state \<Rightarrow> effect list" where
  "exitEffects f i s =
     (if thenExit (invocations s ! i)
      then HostProcessExit 130 #
        (if (HostExit, KillProcessHandler) \<in> set (listeners s) then killEffects f s else [])
      else [])"

definition continueEffects :: "faults \<Rightarrow> nat \<Rightarrow> state \<Rightarrow> effect list" where
  "continueEffects f i s =
     (case pc (invocations s ! i) of
        AwaitCleanup \<Rightarrow>
          [Log browserLog GracefullyCloseEnd, Resolve FirstClose i] @ exitEffects f i s
      | AwaitClose \<Rightarrow> [Resolve ReentrantClose i] @ exitEffects f i s
      | KillWaiting \<Rightarrow> [Resolve KillAndWait i] @ exitEffects f i s
      | _ \<Rightarrow> [])"

text \<open>The program points at which an invocation waits for \<^verbatim>\<open>waitForCleanup\<close>, and those at
  which it waits for one of the two signals.\<close>

definition awaitsCleanup :: "pc \<Rightarrow> bool" where
  "awaitsCleanup p \<longleftrightarrow> p = AwaitCleanup \<or> p = KillWaiting"

definition resumable :: "pc \<Rightarrow> bool" where
  "resumable p \<longleftrightarrow> p = AwaitCleanup \<or> p = AwaitClose \<or> p = KillWaiting"

subsection \<open>Kinds of effects\<close>

fun isOnExit :: "effect \<Rightarrow> bool" where
  "isOnExit (OnExit c sg) = True"
| "isOnExit _ = False"

fun isReject :: "effect \<Rightarrow> bool" where
  "isReject (Reject c i e) = True"
| "isReject _ = False"


fun isResolve :: "caller \<Rightarrow> effect \<Rightarrow> bool" where
  "isResolve c (Resolve c' i) = (c' = c)"
| "isResolve c _ = False"

definition isAttempt :: "effect \<Rightarrow> bool" where
  "isAttempt e \<longleftrightarrow> e = AttemptToGracefullyClose"

text \<open>The calls of the caller's two callbacks, and the rejections.\<close>

definition rare :: "effect \<Rightarrow> bool" where
  "rare e \<longleftrightarrow> isOnExit e \<or> isReject e \<or> e = AttemptToGracefullyClose"

text \<open>The event makes a call of \<^verbatim>\<open>gracefullyClose\<close>.\<close>

fun closes :: "state \<Rightarrow> event \<Rightarrow> bool" where
  "closes s (Host SIGINT) \<longleftrightarrow> (SIGINT, InterruptHandler) \<in> set (listeners s)"
| "closes s (Host SIGTERM) \<longleftrightarrow> (SIGTERM, GracefullyCloseHandler) \<in> set (listeners s)"
| "closes s (Host SIGHUP) \<longleftrightarrow> (SIGHUP, GracefullyCloseHandler) \<in> set (listeners s)"
| "closes s CallGracefullyClose \<longleftrightarrow> pid s \<noteq> 0"
| "closes s _ \<longleftrightarrow> False"

text \<open>What a step adds to the calls of the callbacks.\<close>

definition rareEffects :: "state \<Rightarrow> event \<Rightarrow> effect list" where
  "rareEffects s e =
     (case e of
        ChildExit c sg \<Rightarrow> (if exitObserver s then [OnExit c sg] else [])
      | _ \<Rightarrow> (if closes s e \<and> \<not> gracefullyClosing s then [AttemptToGracefullyClose] else []))"

text \<open>The effects whose order the claims are about.\<close>

fun marker :: "effect \<Rightarrow> bool" where
  "marker (OnExit c sg) = True"
| "marker FulfillClose = True"
| "marker FulfillCleanup = True"
| "marker (Resolve c i) = True"
| "marker _ = False"

definition markers :: "state \<Rightarrow> effect list" where
  "markers s = filter marker (trace s)"

subsection \<open>Order in a trace\<close>

text \<open>
  \<open>precedes P Q t\<close>: every element of \<open>t\<close> that satisfies \<open>Q\<close> comes after an element
  that satisfies \<open>P\<close>.
\<close>

fun precedes :: "('a \<Rightarrow> bool) \<Rightarrow> ('a \<Rightarrow> bool) \<Rightarrow> 'a list \<Rightarrow> bool" where
  "precedes P Q [] = True"
| "precedes P Q (x # xs) = (if Q x then False else if P x then True else precedes P Q xs)"

text \<open>The code and signal of the first exit event of a run, if it has one.\<close>

fun firstExit :: "(faults \<times> event) list \<Rightarrow> (int option \<times> string option) option" where
  "firstExit [] = None"
| "firstExit ((f, ChildExit c sg) # evs) = Some (c, sg)"
| "firstExit (_ # evs) = firstExit evs"

subsection \<open>What a run says, whatever the code does\<close>






subsection \<open>Replaying a trace\<close>

text \<open>
  Replaying a trace: the listeners registered on the host process, and whether every call
  of \<^verbatim>\<open>onExit\<close> so far found none registered.
\<close>

fun track :: "listener list \<times> bool \<Rightarrow> effect \<Rightarrow> listener list \<times> bool" where
  "track (reg, ok) (AddEventListener ev h) = (reg @ [(ev, h)], ok)"
| "track (reg, ok) (RemoveEventListeners ls) = (filter (\<lambda>l. l \<notin> set ls) reg, ok)"
| "track (reg, ok) (OnExit c sg) = (reg, ok \<and> reg = [])"
| "track (reg, ok) _ = (reg, ok)"

definition registered :: "effect list \<Rightarrow> listener list" where
  "registered t = fst (foldl track ([], True) t)"

definition exitAfterRemoval :: "effect list \<Rightarrow> bool" where
  "exitAfterRemoval t = snd (foldl track ([], True) t)"

subsection \<open>Invariants of the supervisor\<close>

text \<open>How the flags of a launched process hang together.\<close>

definition flagsInv :: "state \<Rightarrow> bool" where
  "flagsInv s \<longleftrightarrow>
     pid s \<noteq> 0 \<and> exitObserver s = (\<not> processClosed s) \<and>
     closeFulfilled s = processClosed s \<and>
     (cleanupFulfilled s \<longrightarrow> processClosed s) \<and>
     (processClosed s \<longrightarrow> listeners s = [] \<and> cleanupFulfilled s = (removing s = [])) \<and>
     (\<not> processClosed s \<longrightarrow> removing s = []) \<and>
     \<not> errorObserver s \<and> launchSettled s"

text \<open>
  Invocation \<open>i\<close> is where its caller can be, and agrees with the two signals: it waits
  for a signal only while the signal has not fired (unless \<open>ex\<close> exempts its program point,
  which is the case between the firing and the resumption), and when it is settled, its
  promise has been resolved and the signal it had to wait for has fired.
\<close>

definition invocationOk :: "(pc \<Rightarrow> bool) \<Rightarrow> state \<Rightarrow> nat \<Rightarrow> bool" where
  "invocationOk ex s i \<longleftrightarrow>
     (case pc (invocations s ! i) of
        AwaitAttempt \<Rightarrow> caller (invocations s ! i) = FirstClose
      | AwaitCleanup \<Rightarrow>
          caller (invocations s ! i) = FirstClose \<and> (ex AwaitCleanup \<or> \<not> cleanupFulfilled s)
      | AwaitClose \<Rightarrow>
          caller (invocations s ! i) = ReentrantClose \<and> (ex AwaitClose \<or> \<not> closeFulfilled s)
      | KillWaiting \<Rightarrow>
          caller (invocations s ! i) = KillAndWait \<and> (ex KillWaiting \<or> \<not> cleanupFulfilled s)
      | Settled \<Rightarrow>
          Resolve (caller (invocations s ! i)) i \<in> set (trace s) \<and>
          (if caller (invocations s ! i) = ReentrantClose then closeFulfilled s
           else cleanupFulfilled s))"

definition waitInv :: "state \<Rightarrow> bool" where
  "waitInv s \<longleftrightarrow> (\<forall>i < length (invocations s). invocationOk (\<lambda>p. False) s i)"

text \<open>The signal that the program points of \<open>w\<close> wait for has fired.\<close>

definition signalled :: "(pc \<Rightarrow> bool) \<Rightarrow> state \<Rightarrow> bool" where
  "signalled w s \<longleftrightarrow>
     (\<forall>p. w p \<longrightarrow> (p = AwaitClose \<and> closeFulfilled s) \<or>
                   ((p = AwaitCleanup \<or> p = KillWaiting) \<and> cleanupFulfilled s))"

text \<open>The two signals are in the trace exactly when their flags are set, and the effects
  come in the order exit callback, closed signal, cleanup signal, with each resolution after
  the signal it waits for.\<close>

definition orderInv :: "state \<Rightarrow> bool" where
  "orderInv s \<longleftrightarrow>
     (FulfillClose \<in> set (markers s)) = closeFulfilled s \<and>
     (FulfillCleanup \<in> set (markers s)) = cleanupFulfilled s \<and>
     precedes isOnExit (\<lambda>e. e = FulfillClose) (markers s) \<and>
     precedes (\<lambda>e. e = FulfillClose) (\<lambda>e. e = FulfillCleanup) (markers s) \<and>
     precedes (\<lambda>e. e = FulfillCleanup) (isResolve FirstClose) (markers s) \<and>
     precedes (\<lambda>e. e = FulfillClose) (isResolve ReentrantClose) (markers s) \<and>
     precedes (\<lambda>e. e = FulfillCleanup) (isResolve KillAndWait) (markers s)"

text \<open>
  Invocation \<open>i\<close>, made through closure \<open>c\<close>, is tied to a signal: while the signal has not
  fired it is suspended at \<open>waiting\<close> and its promise is not resolved; once the signal has
  fired it is settled and its promise is resolved.
\<close>

definition tiedTo :: "bool \<Rightarrow> pc \<Rightarrow> caller \<Rightarrow> state \<Rightarrow> nat \<Rightarrow> bool" where
  "tiedTo fired waiting c s i \<longleftrightarrow>
     (if fired then pc (invocations s ! i) = Settled \<and> Resolve c i \<in> set (trace s)
      else pc (invocations s ! i) = waiting \<and> Resolve c i \<notin> set (trace s))"

text \<open>The caller's operation has been called once if a close has begun, and never before.\<close>

definition attemptedOnce :: "state \<Rightarrow> bool" where
  "attemptedOnce s \<longleftrightarrow>
     filter isAttempt (trace s) =
       (if gracefullyClosing s then [AttemptToGracefullyClose] else [])"



text \<open>The trace, replayed, gives the listeners that are registered, and no call of
  \<^verbatim>\<open>onExit\<close> has found one.\<close>

definition listenInv :: "state \<Rightarrow> bool" where
  "listenInv s \<longleftrightarrow> foldl track ([], True) (trace s) = (listeners s, True)"




section \<open>Facts about waitForLine\<close>

subsection \<open>Facts about the race\<close>

lemma wl_done_step: "wl_done s \<Longrightarrow> wl_step regex s e = s"
  by (cases e) (simp_all add: wl_done_def)

declare wl_step.simps [simp del]

lemma wl_done_foldl: "wl_done s \<Longrightarrow> foldl (wl_step regex) s evs = s"
  by (induction evs) (simp_all add: wl_done_step)

lemma quiet_step:
  assumes "wl_open timeout s" and "quiet regex timeout e"
  shows "wl_open timeout (wl_step regex s e) \<and>
         stderr (wl_step regex s e) = stderr s @ collected [e]"
  using assms by (cases e) (auto simp: wl_open_def onLine_def wl_step.simps)

lemma quiet_foldl:
  assumes "wl_open timeout s" and "\<forall>e \<in> set evs. quiet regex timeout e"
  shows "wl_open timeout (foldl (wl_step regex) s evs) \<and>
         stderr (foldl (wl_step regex) s evs) = stderr s @ collected evs"
  using assms
proof (induction evs arbitrary: s)
  case Nil
  then show ?case by simp
next
  case (Cons e evs)
  from Cons.prems have q: "quiet regex timeout e" by simp
  from quiet_step[OF Cons.prems(1) q]
  have o: "wl_open timeout (wl_step regex s e)"
    and st: "stderr (wl_step regex s e) = stderr s @ collected [e]" by simp_all
  from Cons.prems have rest: "\<forall>e \<in> set evs. quiet regex timeout e" by simp
  from Cons.IH[OF o rest] st show ?case
    by (cases e) simp_all
qed

lemma wl_open_init: "wl_open timeout (waitForLine timeout)"
  by (simp add: wl_open_def waitForLine_def)

lemma collected_append: "collected (xs @ ys) = collected xs @ collected ys"
  by (induction xs rule: collected.induct) simp_all

lemma line_in_collected: "Line l \<in> set evs \<Longrightarrow> sublist l (collected evs)"
proof (induction evs rule: collected.induct)
  case 1
  then show ?case by simp
next
  case (2 l' evs)
  show ?case
  proof (cases "l' = l")
    case True
    then show ?thesis by simp
  next
    case False
    with 2 have "sublist l (collected evs)" by simp
    then obtain ps ss where "collected evs = ps @ l @ ss" by (auto simp: sublist_def)
    then have "collected (Line l' # evs) = (l' @ newline @ ps) @ l @ ss" by simp
    then show ?thesis unfolding sublist_def by blast
  qed
qed simp_all

lemma failureMessage_unfold:
  "failureMessage error err =
     (''Failed to launch browser!'' @ (case error of Some m \<Rightarrow> '' '' @ m | None \<Rightarrow> '''')) @
     newline @ err @ newline @ newline @ troubleshooting @ newline"
  by (simp add: failureMessage_def)

lemma sublist_failureMessage_lines:
  assumes "sublist l err"
  shows "sublist l (failureMessage error err)"
proof -
  from assms obtain ps ss where e: "err = ps @ l @ ss" by (auto simp: sublist_def)
  let ?h = "''Failed to launch browser!'' @ (case error of Some m \<Rightarrow> '' '' @ m | None \<Rightarrow> '''')"
  have "failureMessage error err =
          (?h @ newline @ ps) @ l @ (ss @ newline @ newline @ troubleshooting @ newline)"
    by (simp add: failureMessage_unfold e)
  then show ?thesis unfolding sublist_def by blast
qed

lemma sublist_failureMessage_error: "sublist m (failureMessage (Some m) err)"
proof -
  have "failureMessage (Some m) err =
          ''Failed to launch browser! '' @ m @ (newline @ err @ newline @ newline @ troubleshooting @ newline)"
    by (simp add: failureMessage_unfold)
  then show ?thesis unfolding sublist_def by blast
qed

lemma first_match_state:
  assumes "wl_open timeout s" and "regex l = Some m"
  shows "wl_step regex s (Line l) =
           \<lparr> stderr = stderr s @ l @ newline, wl_listeners = [], timeoutId = (timeout \<noteq> 0),
             timerArmed = False, promise = Some (Resolved m) \<rparr>"
  using assms by (simp add: wl_open_def onLine_def wl_cleanup_def wl_removeEventListeners_def settle_def Let_def wl_step.simps)

lemma termination_state:
  assumes "wl_open timeout s" and "terminationError e = Some err"
  shows "wl_step regex s e =
           \<lparr> stderr = stderr s, wl_listeners = [], timeoutId = (timeout \<noteq> 0),
             timerArmed = False, promise = Some (RejectedError (failureMessage err (stderr s))) \<rparr>"
  using assms by (cases e) (auto simp: wl_open_def onClose_def wl_cleanup_def wl_removeEventListeners_def settle_def Let_def wl_step.simps)

lemma timeout_state:
  assumes "wl_open timeout s" and "timeout \<noteq> 0"
  shows "wl_step regex s TimerFired =
           \<lparr> stderr = stderr s, wl_listeners = [], timeoutId = True,
             timerArmed = False, promise = Some RejectedTimeout \<rparr>"
  using assms by (simp add: wl_open_def onTimeout_def wl_cleanup_def wl_removeEventListeners_def settle_def Let_def wl_step.simps)

lemma closing_event_not_resolved:
  assumes "wl_done (wl_step regex s e)"
    and "promise (wl_step regex s e) \<noteq> Some (Resolved m)"
  shows "promise (foldl (wl_step regex) s (e # evs)) \<noteq> Some (Resolved m)"
  using assms by (simp add: wl_done_foldl)

lemma resolved_has_first_match:
  assumes "wl_open timeout s"
    and "promise (foldl (wl_step regex) s evs) = Some (Resolved m)"
  shows "\<exists>pre l post. evs = pre @ Line l # post \<and> (\<forall>e \<in> set pre. quiet regex timeout e) \<and>
           regex l = Some m"
  using assms
proof (induction evs arbitrary: s)
  case Nil
  then show ?case by (simp add: wl_open_def)
next
  case (Cons e evs)
  show ?case
  proof (cases "quiet regex timeout e")
    case True
    from quiet_step[OF Cons.prems(1) True] have "wl_open timeout (wl_step regex s e)" by simp
    from Cons.IH[OF this] Cons.prems(2)
    obtain pre l post where "evs = pre @ Line l # post"
      and "\<forall>e \<in> set pre. quiet regex timeout e" and "regex l = Some m" by auto
    with True have "e # evs = (e # pre) @ Line l # post \<and>
        (\<forall>x \<in> set (e # pre). quiet regex timeout x) \<and> regex l = Some m" by simp
    then show ?thesis by blast
  next
    case False
    show ?thesis
    proof (cases "\<exists>l. e = Line l")
      case True
      then obtain l where e: "e = Line l" by blast
      with False obtain m' where m': "regex l = Some m'" by auto
      let ?s' = "wl_step regex s (Line l)"
      note st = first_match_state[of timeout s regex l m', OF Cons.prems(1) m']
      have "wl_done ?s'" unfolding st by (simp add: wl_done_def)
      then have "foldl (wl_step regex) ?s' evs = ?s'" by (rule wl_done_foldl)
      with Cons.prems(2) e have "promise ?s' = Some (Resolved m)" by (simp)
      with st have "m' = m" by (simp)
      with m' e have "e # evs = [] @ Line l # evs \<and>
          (\<forall>x \<in> set []. quiet regex timeout x) \<and> regex l = Some m" by simp
      then show ?thesis by blast
    next
      case notline: False
      have "wl_done (wl_step regex s e) \<and> promise (wl_step regex s e) \<noteq> Some (Resolved m)"
      proof (cases e)
        case (Line l)
        with notline show ?thesis by simp
      next
        case TimerFired
        with False have t: "timeout \<noteq> 0" by simp
        show ?thesis unfolding TimerFired
          by (simp add: timeout_state[OF Cons.prems(1) t] wl_done_def)
      next
        case RlClosed
        then have te: "terminationError e = Some None" by simp
        show ?thesis by (simp add: termination_state[OF Cons.prems(1) te] wl_done_def)
      next
        case ProcessExited
        then have te: "terminationError e = Some None" by simp
        show ?thesis by (simp add: termination_state[OF Cons.prems(1) te] wl_done_def)
      next
        case (ProcessErrored em)
        then have te: "terminationError e = Some (Some em)" by simp
        show ?thesis by (simp add: termination_state[OF Cons.prems(1) te] wl_done_def)
      qed
      then have "promise (foldl (wl_step regex) s (e # evs)) \<noteq> Some (Resolved m)"
        using closing_event_not_resolved[of regex s e m evs] by blast
      with Cons.prems(2) show ?thesis by simp
    qed
  qed
qed

subsection \<open>The claims about waitForLine\<close>

text \<open>
  Claim C6. \<^verbatim>\<open>waitForLine\<close> resolves with the match of the first line that matches the
  pattern, and what arrives after that match has no effect. First part: when the events
  before a matching line \<open>l\<close> all leave the race open (lines that do not match), the
  promise is resolved with the match of \<open>l\<close>, every listener is detached, the timer is
  cancelled, and the final state is the same whatever events \<open>post\<close> follow. Second part:
  the promise is never resolved in any other way, so a resolved promise always carries the
  match of the first matching line.
\<close>

theorem waitForLine_resolves_first_match:
  "((\<forall>e \<in> set pre. quiet regex timeout e) \<and> regex l = Some m \<longrightarrow>
      wl_run regex timeout (pre @ Line l # post) =
        \<lparr> stderr = collected (pre @ [Line l]), wl_listeners = [], timeoutId = (timeout \<noteq> 0),
          timerArmed = False, promise = Some (Resolved m) \<rparr>) \<and>
   (promise (wl_run regex timeout evs) = Some (Resolved m') \<longrightarrow>
      (\<exists>pre' l' post'. evs = pre' @ Line l' # post' \<and>
         (\<forall>e \<in> set pre'. quiet regex timeout e) \<and> regex l' = Some m'))"
proof (intro conjI impI)
  assume a: "(\<forall>e \<in> set pre. quiet regex timeout e) \<and> regex l = Some m"
  let ?s = "foldl (wl_step regex) (waitForLine timeout) pre"
  from a quiet_foldl[OF wl_open_init, of pre regex timeout]
  have o: "wl_open timeout ?s" and st: "stderr ?s = collected pre"
    by (simp_all add: waitForLine_def)
  from a have m: "regex l = Some m" by simp
  note fm = first_match_state[of timeout ?s regex l m, OF o m]
  have "wl_done (wl_step regex ?s (Line l))" unfolding fm by (simp add: wl_done_def)
  then have "foldl (wl_step regex) (wl_step regex ?s (Line l)) post = wl_step regex ?s (Line l)"
    by (rule wl_done_foldl)
  then show "wl_run regex timeout (pre @ Line l # post) =
        \<lparr> stderr = collected (pre @ [Line l]), wl_listeners = [], timeoutId = (timeout \<noteq> 0),
          timerArmed = False, promise = Some (Resolved m) \<rparr>"
    by (simp add: wl_run_def fm st collected_append)
next
  assume "promise (wl_run regex timeout evs) = Some (Resolved m')"
  then show "\<exists>pre' l' post'. evs = pre' @ Line l' # post' \<and>
         (\<forall>e \<in> set pre'. quiet regex timeout e) \<and> regex l' = Some m'"
    unfolding wl_run_def by (rule resolved_has_first_match[OF wl_open_init])
qed

theorem waitForLine_resolves_first_match_witness:
  "quiet (\<lambda>l. if l = ''ready'' then Some (1::nat) else None) 0 (Line ''boot'') \<and>
   (\<lambda>l. if l = ''ready'' then Some (1::nat) else None) ''ready'' = Some 1 \<and>
   wl_run (\<lambda>l. if l = ''ready'' then Some (1::nat) else None) 0
       ([Line ''boot''] @ Line ''ready'' # [Line ''ready'', RlClosed]) =
     \<lparr> stderr = collected ([Line ''boot''] @ [Line ''ready'']), wl_listeners = [],
       timeoutId = ((0::nat) \<noteq> 0), timerArmed = False, promise = Some (Resolved 1) \<rparr> \<and>
   (\<exists>pre' l' post'. [Line ''boot'', Line ''ready'', Line ''ready'', RlClosed] = pre' @ Line l' # post' \<and>
      (\<forall>e \<in> set pre'. quiet (\<lambda>l. if l = ''ready'' then Some (1::nat) else None) 0 e) \<and>
      (\<lambda>l. if l = ''ready'' then Some (1::nat) else None) l' = Some 1)"
proof -
  let ?rx = "\<lambda>l. if l = ''ready'' then Some (1::nat) else None"
  note t = waitForLine_resolves_first_match[where pre="[Line ''boot'']" and regex="?rx"
      and timeout=0 and l="''ready''" and m=1 and post="[Line ''ready'', RlClosed]"
      and evs="[Line ''boot'', Line ''ready'', Line ''ready'', RlClosed]" and m'=1]
  have h: "(\<forall>e \<in> set [Line ''boot'']. quiet ?rx 0 e) \<and> ?rx ''ready'' = Some 1" by simp
  from t h have r: "wl_run ?rx 0 ([Line ''boot''] @ Line ''ready'' # [Line ''ready'', RlClosed]) =
     \<lparr> stderr = collected ([Line ''boot''] @ [Line ''ready'']), wl_listeners = [],
       timeoutId = ((0::nat) \<noteq> 0), timerArmed = False, promise = Some (Resolved 1) \<rparr>"
    by blast
  then have "promise (wl_run ?rx 0 [Line ''boot'', Line ''ready'', Line ''ready'', RlClosed]) =
      Some (Resolved 1)" by simp
  with t have "\<exists>pre' l' post'. [Line ''boot'', Line ''ready'', Line ''ready'', RlClosed] = pre' @ Line l' # post' \<and>
      (\<forall>e \<in> set pre'. quiet ?rx 0 e) \<and> ?rx l' = Some 1"
    by blast
  with h r show ?thesis by simp
qed

text \<open>
  Claim C7. When the stream closes, the process exits or the process reports an error
  before any line has matched, the promise is rejected with an error whose message is
  \<open>failureMessage\<close> of the lines collected so far; every collected line occurs in that
  message, and so does the message of the error that triggered the termination, if any.
\<close>

theorem waitForLine_rejects_with_collected_lines:
  assumes "\<forall>e \<in> set pre. quiet regex timeout e"
    and "terminationError e = Some err"
  shows "promise (wl_run regex timeout (pre @ e # post)) =
           Some (RejectedError (failureMessage err (collected pre))) \<and>
         (\<forall>l. Line l \<in> set pre \<longrightarrow> sublist l (failureMessage err (collected pre))) \<and>
         (\<forall>em. err = Some em \<longrightarrow> sublist em (failureMessage err (collected pre)))"
proof (intro conjI allI impI)
  let ?s = "foldl (wl_step regex) (waitForLine timeout) pre"
  from assms(1) quiet_foldl[OF wl_open_init, of pre regex timeout]
  have o: "wl_open timeout ?s" and st: "stderr ?s = collected pre"
    by (simp_all add: waitForLine_def)
  note ts = termination_state[OF o assms(2)]
  have "wl_done (wl_step regex ?s e)" by (simp add: ts wl_done_def)
  then have "foldl (wl_step regex) (wl_step regex ?s e) post = wl_step regex ?s e"
    by (rule wl_done_foldl)
  then show "promise (wl_run regex timeout (pre @ e # post)) =
           Some (RejectedError (failureMessage err (collected pre)))"
    by (simp add: wl_run_def ts st)
next
  fix l assume "Line l \<in> set pre"
  then have "sublist l (collected pre)" by (rule line_in_collected)
  then show "sublist l (failureMessage err (collected pre))"
    by (rule sublist_failureMessage_lines)
next
  fix em assume "err = Some em"
  then show "sublist em (failureMessage err (collected pre))"
    by (simp add: sublist_failureMessage_error)
qed

theorem waitForLine_rejects_with_collected_lines_witness:
  "quiet (\<lambda>l. if l = ''ready'' then Some (1::nat) else None) 500 (Line ''boot'') \<and>
   quiet (\<lambda>l. if l = ''ready'' then Some (1::nat) else None) 500 (Line ''oops'') \<and>
   terminationError (ProcessErrored ''ENOENT'') = Some (Some ''ENOENT'') \<and>
   promise (wl_run (\<lambda>l. if l = ''ready'' then Some (1::nat) else None) 500
       ([Line ''boot'', Line ''oops''] @ ProcessErrored ''ENOENT'' # [Line ''ready''])) =
     Some (RejectedError (failureMessage (Some ''ENOENT'') (collected [Line ''boot'', Line ''oops'']))) \<and>
   sublist ''oops'' (failureMessage (Some ''ENOENT'') (collected [Line ''boot'', Line ''oops''])) \<and>
   sublist ''ENOENT'' (failureMessage (Some ''ENOENT'') (collected [Line ''boot'', Line ''oops'']))"
proof -
  let ?rx = "\<lambda>l. if l = ''ready'' then Some (1::nat) else None"
  have h1: "\<forall>e \<in> set [Line ''boot'', Line ''oops'']. quiet ?rx 500 e" by simp
  have h2: "terminationError (ProcessErrored ''ENOENT'') = Some (Some ''ENOENT'')" by simp
  from waitForLine_rejects_with_collected_lines[OF h1 h2, of "[Line ''ready'']"] h1 h2
  show ?thesis by simp
qed

section \<open>Facts about launchProcess\<close>

lemma removeFolders_snd:
  "snd (removeFolders f dirs s) = s\<lparr>trace := trace s @ removeAttempts f dirs\<rparr>"
  by (induction dirs arbitrary: s) (simp_all add: emit_def Let_def)

lemma fst_killProcess: "fst (killProcess f s) = Inr ()"
  by (simp add: killProcess_def catchAll_def Let_def)

lemma killProcess_snd:
  "snd (killProcess f s) = s\<lparr>listeners := [], trace := trace s @ killEffects f s\<rparr>"
  by (simp add: killProcess_def catchAll_def Let_def removeFolders_snd forceKill_def
      removeEventListeners_def emit_def killEffects_def alive_def)

lemma hostExit_eq:
  "hostExit f s =
     (if (HostExit, KillProcessHandler) \<in> set (listeners s)
      then s\<lparr>listeners := [], trace := trace s @ killEffects f s\<rparr> else s)"
  by (simp add: hostExit_def killProcess_snd)



lemma resumeUpTo_induct:
  assumes "P s"
    and "\<And>i s'. P s' \<Longrightarrow> w (pc (invocations s' ! i)) \<Longrightarrow> P (continue f i s')"
  shows "P (resumeUpTo f w k s)"
  using assms by (induction k) (simp_all add: Let_def)

lemma continue_fields:
  "opts (continue f i s) = opts s \<and> win32 (continue f i s) = win32 s \<and>
   pid (continue f i s) = pid s \<and> killed (continue f i s) = killed s \<and>
   exitObserver (continue f i s) = exitObserver s \<and>
   errorObserver (continue f i s) = errorObserver s \<and>
   stdoutReader (continue f i s) = stdoutReader s \<and>
   stderrReader (continue f i s) = stderrReader s \<and>
   processClosed (continue f i s) = processClosed s \<and>
   closeFulfilled (continue f i s) = closeFulfilled s \<and>
   cleanupFulfilled (continue f i s) = cleanupFulfilled s \<and>
   removing (continue f i s) = removing s \<and> failed (continue f i s) = failed s \<and>
   launchSettled (continue f i s) = launchSettled s \<and>
   gracefullyClosing (continue f i s) = gracefullyClosing s \<and>
   length (invocations (continue f i s)) = length (invocations s)"
  by (simp add: continue_def resolve_def setPc_def emit_def hostExit_eq Let_def split: pc.splits)

declare continue_fields [simp]

lemma resumeUpTo_fields:
  "opts (resumeUpTo f w k s) = opts s \<and> win32 (resumeUpTo f w k s) = win32 s \<and>
   pid (resumeUpTo f w k s) = pid s \<and> killed (resumeUpTo f w k s) = killed s \<and>
   exitObserver (resumeUpTo f w k s) = exitObserver s \<and>
   errorObserver (resumeUpTo f w k s) = errorObserver s \<and>
   stdoutReader (resumeUpTo f w k s) = stdoutReader s \<and>
   stderrReader (resumeUpTo f w k s) = stderrReader s \<and>
   processClosed (resumeUpTo f w k s) = processClosed s \<and>
   closeFulfilled (resumeUpTo f w k s) = closeFulfilled s \<and>
   cleanupFulfilled (resumeUpTo f w k s) = cleanupFulfilled s \<and>
   removing (resumeUpTo f w k s) = removing s \<and> failed (resumeUpTo f w k s) = failed s \<and>
   launchSettled (resumeUpTo f w k s) = launchSettled s \<and>
   gracefullyClosing (resumeUpTo f w k s) = gracefullyClosing s \<and>
   length (invocations (resumeUpTo f w k s)) = length (invocations s)"
  by (induction k) (simp_all add: Let_def)

declare resumeUpTo_fields [simp]

lemma continue_listeners_empty: "listeners s = [] \<Longrightarrow> listeners (continue f i s) = []"
  by (simp add: continue_def resolve_def setPc_def emit_def hostExit_eq Let_def split: pc.splits)

lemma resumeUpTo_listeners_empty: "listeners s = [] \<Longrightarrow> listeners (resumeUpTo f w k s) = []"
  by (induction k) (simp_all add: Let_def continue_listeners_empty)

lemma cleanup_fold:
  "fold (\<lambda>dir. emit (RemoveFolderAsync dir)) dirs s = s\<lparr>trace := trace s @ map RemoveFolderAsync dirs\<rparr>"
  by (induction dirs arbitrary: s) (simp_all add: emit_def)

lemma cleanup_eq:
  "cleanup s = s\<lparr>trace := trace s @ map RemoveFolderAsync (tempDirectories (opts s)),
                 removing := tempDirectories (opts s)\<rparr>"
  by (simp add: cleanup_def cleanup_fold)

lemma killEffects_fields:
  "killEffects f (s\<lparr>trace := t\<rparr>) = killEffects f s"
  "killEffects f (s\<lparr>invocations := iv\<rparr>) = killEffects f s"
  "killEffects f (s\<lparr>gracefullyClosing := g\<rparr>) = killEffects f s"
  by (simp_all add: killEffects_def alive_def)

lemma gracefullyClose_eq:
  "gracefullyClose f ex s =
     (if gracefullyClosing s then
        (let s3 = s\<lparr>listeners := [],
                     trace := trace s @ Log browserLog ForcefullyClose # killEffects f s,
                     invocations := invocations s @
                       [\<lparr> caller = ReentrantClose, pc = AwaitClose, thenExit = ex \<rparr>]\<rparr>
         in if closeFulfilled s then continue f (length (invocations s)) s3 else s3)
      else
        s\<lparr>gracefullyClosing := True,
          trace := trace s @ [Log browserLog GracefullyCloseStart, AttemptToGracefullyClose],
          invocations := invocations s @
            [\<lparr> caller = FirstClose, pc = AwaitAttempt, thenExit = ex \<rparr>]\<rparr>)"
  by (simp add: gracefullyClose_def Let_def fst_killProcess killProcess_snd invoke_def emit_def
      killEffects_fields)

lemma killAndWait_eq:
  "killAndWait f s =
     (let s2 = s\<lparr>listeners := [], trace := trace s @ killEffects f s,
                  invocations := invocations s @
                    [\<lparr> caller = KillAndWait, pc = KillWaiting, thenExit = False \<rparr>]\<rparr>
      in if cleanupFulfilled s then continue f (length (invocations s)) s2 else s2)"
  by (simp add: killAndWait_def Let_def fst_killProcess killProcess_snd invoke_def)

lemma attemptSettled_eq:
  "attemptSettled f ok i s =
     (let s1 = (if ok then s else s\<lparr>listeners := [], trace := trace s @ killEffects f s\<rparr>);
          s2 = setPc i AwaitCleanup s1
      in if cleanupFulfilled s then continue f i s2 else s2)"
  by (simp add: attemptSettled_def Let_def fst_killProcess killProcess_snd setPc_def)

lemma flagsInv_launch: "p \<noteq> 0 \<Longrightarrow> flagsInv (launchProcess w options p)"
  by (simp add: flagsInv_def launchProcess_def blank_def emit_def addEventListener_def Let_def)

lemma fulfillCleanup_fields:
  "opts (fulfillCleanup f s) = opts s \<and> win32 (fulfillCleanup f s) = win32 s \<and>
   pid (fulfillCleanup f s) = pid s \<and> killed (fulfillCleanup f s) = killed s \<and>
   exitObserver (fulfillCleanup f s) = exitObserver s \<and>
   errorObserver (fulfillCleanup f s) = errorObserver s \<and>
   stdoutReader (fulfillCleanup f s) = stdoutReader s \<and>
   stderrReader (fulfillCleanup f s) = stderrReader s \<and>
   processClosed (fulfillCleanup f s) = processClosed s \<and>
   closeFulfilled (fulfillCleanup f s) = closeFulfilled s \<and>
   cleanupFulfilled (fulfillCleanup f s) = True \<and>
   removing (fulfillCleanup f s) = removing s \<and> failed (fulfillCleanup f s) = failed s \<and>
   launchSettled (fulfillCleanup f s) = launchSettled s \<and>
   gracefullyClosing (fulfillCleanup f s) = gracefullyClosing s \<and>
   length (invocations (fulfillCleanup f s)) = length (invocations s)"
  by (simp add: fulfillCleanup_def Let_def resume_def emit_def)

lemma fulfillCleanup_listeners_empty: "listeners s = [] \<Longrightarrow> listeners (fulfillCleanup f s) = []"
  by (simp add: fulfillCleanup_def Let_def resume_def emit_def resumeUpTo_listeners_empty)

lemma onProcessExit_fields:
  "opts (onProcessExit f c sg s) = opts s \<and> win32 (onProcessExit f c sg s) = win32 s \<and>
   pid (onProcessExit f c sg s) = pid s \<and> killed (onProcessExit f c sg s) = killed s \<and>
   exitObserver (onProcessExit f c sg s) = exitObserver s \<and>
   errorObserver (onProcessExit f c sg s) = errorObserver s \<and>
   stdoutReader (onProcessExit f c sg s) = stdoutReader s \<and>
   stderrReader (onProcessExit f c sg s) = stderrReader s \<and>
   processClosed (onProcessExit f c sg s) = True \<and>
   closeFulfilled (onProcessExit f c sg s) = True \<and>
   cleanupFulfilled (onProcessExit f c sg s) =
     (cleanupFulfilled s \<or> tempDirectories (opts s) = []) \<and>
   removing (onProcessExit f c sg s) = tempDirectories (opts s) \<and>
   failed (onProcessExit f c sg s) = failed s \<and>
   launchSettled (onProcessExit f c sg s) = launchSettled s \<and>
   gracefullyClosing (onProcessExit f c sg s) = gracefullyClosing s \<and>
   length (invocations (onProcessExit f c sg s)) = length (invocations s) \<and>
   listeners (onProcessExit f c sg s) = []"
  by (simp add: onProcessExit_def Let_def resume_def cleanup_eq fulfillClose_def emit_def
      removeEventListeners_def fulfillCleanup_fields fulfillCleanup_listeners_empty
      resumeUpTo_listeners_empty)

lemma removeFolderDone_fields:
  "pid s \<noteq> 0 \<Longrightarrow>
   opts (removeFolderDone f d ok s) = opts s \<and> win32 (removeFolderDone f d ok s) = win32 s \<and>
   pid (removeFolderDone f d ok s) = pid s \<and> killed (removeFolderDone f d ok s) = killed s \<and>
   exitObserver (removeFolderDone f d ok s) = exitObserver s \<and>
   errorObserver (removeFolderDone f d ok s) = errorObserver s \<and>
   stdoutReader (removeFolderDone f d ok s) = stdoutReader s \<and>
   stderrReader (removeFolderDone f d ok s) = stderrReader s \<and>
   processClosed (removeFolderDone f d ok s) = processClosed s \<and>
   closeFulfilled (removeFolderDone f d ok s) = closeFulfilled s \<and>
   cleanupFulfilled (removeFolderDone f d ok s) =
     (cleanupFulfilled s \<or> remove1 d (removing s) = []) \<and>
   removing (removeFolderDone f d ok s) = remove1 d (removing s) \<and>
   failed (removeFolderDone f d ok s) = failed s \<and>
   launchSettled (removeFolderDone f d ok s) = launchSettled s \<and>
   gracefullyClosing (removeFolderDone f d ok s) = gracefullyClosing s \<and>
   length (invocations (removeFolderDone f d ok s)) = length (invocations s)"
  by (simp add: removeFolderDone_def Let_def emit_def fulfillCleanup_fields)

lemma removeFolderDone_listeners_empty:
  "pid s \<noteq> 0 \<Longrightarrow> listeners s = [] \<Longrightarrow> listeners (removeFolderDone f d ok s) = []"
  by (simp add: removeFolderDone_def Let_def emit_def fulfillCleanup_listeners_empty)

lemma flagsInv_gracefullyClose: "flagsInv s \<Longrightarrow> flagsInv (gracefullyClose f ex s)"
  by (auto simp: flagsInv_def gracefullyClose_eq Let_def continue_listeners_empty)

lemma flagsInv_killAndWait: "flagsInv s \<Longrightarrow> flagsInv (killAndWait f s)"
  by (auto simp: flagsInv_def killAndWait_eq Let_def continue_listeners_empty)

lemma flagsInv_attemptSettled: "flagsInv s \<Longrightarrow> flagsInv (attemptSettled f ok i s)"
  by (auto simp: flagsInv_def attemptSettled_eq Let_def continue_listeners_empty setPc_def)

lemma flagsInv_hostExit: "flagsInv s \<Longrightarrow> flagsInv (hostExit f s)"
  by (simp add: flagsInv_def hostExit_eq)

lemma flagsInv_step: "flagsInv s \<Longrightarrow> flagsInv (step f s e)"
proof (cases e)
  case (ChildExit c sg)
  assume "flagsInv s"
  then show ?thesis unfolding ChildExit
    by (auto simp: flagsInv_def onProcessExit_fields)
next
  case (Host h)
  assume "flagsInv s"
  then show ?thesis unfolding Host
    by (cases h) (simp_all add: flagsInv_gracefullyClose flagsInv_hostExit)
next
  case (RemoveFolderFinished d ok)
  assume a: "flagsInv s"
  then have p: "pid s \<noteq> 0" by (simp add: flagsInv_def)
  show ?thesis unfolding RemoveFolderFinished using a
    by (auto simp: flagsInv_def removeFolderDone_fields[OF p] removeFolderDone_listeners_empty[OF p])
next
  case AttemptResolved
  assume "flagsInv s"
  then show ?thesis unfolding AttemptResolved
    by (simp add: flagsInv_attemptSettled split: option.splits)
next
  case AttemptRejected
  assume "flagsInv s"
  then show ?thesis unfolding AttemptRejected
    by (simp add: flagsInv_attemptSettled split: option.splits)
next
  case CallGracefullyClose
  assume "flagsInv s"
  then show ?thesis unfolding CallGracefullyClose by (simp add: flagsInv_gracefullyClose)
next
  case CallKill
  assume "flagsInv s"
  then show ?thesis unfolding CallKill by (simp add: flagsInv_killAndWait)
qed (simp_all add: flagsInv_def emit_def)

lemma flagsInv_run: "flagsInv s \<Longrightarrow> flagsInv (run s evs)"
  by (induction evs arbitrary: s) (auto simp: flagsInv_step)

lemma flagsInv_reachable: "p \<noteq> 0 \<Longrightarrow> flagsInv (run (launchProcess w options p) evs)"
  by (simp add: flagsInv_run flagsInv_launch)

subsection \<open>What resuming an invocation does\<close>

lemma continue_trace: "trace (continue f i s) = trace s @ continueEffects f i s"
  by (simp add: continue_def continueEffects_def exitEffects_def resolve_def setPc_def emit_def
      hostExit_eq Let_def killEffects_fields split: pc.splits)

lemma continue_invocations:
  "invocations (continue f i s) =
     (if resumable (pc (invocations s ! i))
      then (invocations s)[i := (invocations s ! i)\<lparr>pc := Settled\<rparr>] else invocations s)"
  by (simp add: continue_def resolve_def setPc_def emit_def hostExit_eq Let_def resumable_def
      split: pc.splits)

subsection \<open>Invocations and the two signals\<close>

lemma continue_ok_other:
  assumes "j \<noteq> i" and "j < length (invocations s)" and "invocationOk ex s j"
  shows "invocationOk ex (continue f i s) j"
  using assms
  by (auto simp: invocationOk_def continue_invocations continue_trace split: pc.splits)

lemma continue_ok_self:
  assumes "i < length (invocations s)" and "invocationOk w s i"
    and "w (pc (invocations s ! i))" and "signalled w s"
  shows "invocationOk ex (continue f i s) i"
proof -
  from assms(3,4) have sg:
    "(pc (invocations s ! i) = AwaitClose \<and> closeFulfilled s) \<or>
     ((pc (invocations s ! i) = AwaitCleanup \<or> pc (invocations s ! i) = KillWaiting) \<and>
      cleanupFulfilled s)"
    by (simp add: signalled_def)
  then show ?thesis
  proof (elim disjE conjE)
    assume p: "pc (invocations s ! i) = AwaitClose" and c: "closeFulfilled s"
    from assms(2) p have "caller (invocations s ! i) = ReentrantClose"
      by (simp add: invocationOk_def)
    with p c assms(1) show ?thesis
      by (simp add: invocationOk_def continue_invocations continue_trace continueEffects_def
          resumable_def)
  next
    assume p: "pc (invocations s ! i) = AwaitCleanup" and c: "cleanupFulfilled s"
    from assms(2) p have "caller (invocations s ! i) = FirstClose"
      by (simp add: invocationOk_def)
    with p c assms(1) show ?thesis
      by (simp add: invocationOk_def continue_invocations continue_trace continueEffects_def
          resumable_def)
  next
    assume p: "pc (invocations s ! i) = KillWaiting" and c: "cleanupFulfilled s"
    from assms(2) p have "caller (invocations s ! i) = KillAndWait"
      by (simp add: invocationOk_def)
    with p c assms(1) show ?thesis
      by (simp add: invocationOk_def continue_invocations continue_trace continueEffects_def
          resumable_def)
  qed
qed

lemma invocationOk_not_exempt:
  "invocationOk w s i \<Longrightarrow> \<not> w (pc (invocations s ! i)) \<Longrightarrow> invocationOk ex s i"
  by (auto simp: invocationOk_def split: pc.splits)

lemma invocationOk_weaken: "invocationOk (\<lambda>p. False) s i \<Longrightarrow> invocationOk ex s i"
  by (auto simp: invocationOk_def split: pc.splits)

lemma signalled_continue: "signalled w (continue f i s) = signalled w s"
  by (simp add: signalled_def)

lemma signalled_resumeUpTo: "signalled w (resumeUpTo f w' k s) = signalled w s"
  by (simp add: signalled_def)

text \<open>The loop of \<open>resume\<close>: the invocations below \<open>k\<close> have been dealt with.\<close>

lemma resumeUpTo_ok:
  assumes "\<forall>i < length (invocations s). invocationOk w s i"
    and "signalled w s" and "k \<le> length (invocations s)"
  shows "\<forall>i < length (invocations s).
           invocationOk (\<lambda>p. k \<le> i \<and> w p) (resumeUpTo f w k s) i"
  using assms(3)
proof (induction k)
  case 0
  from assms(1) show ?case by simp
next
  case (Suc k)
  let ?s1 = "resumeUpTo f w k s"
  from Suc have IH: "\<forall>i < length (invocations s). invocationOk (\<lambda>p. k \<le> i \<and> w p) ?s1 i"
    and k: "k < length (invocations s)" by simp_all
  have len: "length (invocations ?s1) = length (invocations s)" by simp
  have sg: "signalled w ?s1" using assms(2) by (simp add: signalled_resumeUpTo)
  show ?case
  proof (intro allI impI)
    fix i assume i: "i < length (invocations s)"
    from IH i have ok: "invocationOk (\<lambda>p. k \<le> i \<and> w p) ?s1 i" by simp
    show "invocationOk (\<lambda>p. Suc k \<le> i \<and> w p) (resumeUpTo f w (Suc k) s) i"
    proof (cases "w (pc (invocations ?s1 ! k))")
      case True
      then have r: "resumeUpTo f w (Suc k) s = continue f k ?s1" by (simp add: Let_def)
      show ?thesis
      proof (cases "i = k")
        case ik: True
        from ok ik have "invocationOk w ?s1 k" by simp
        from continue_ok_self[OF _ this True sg] k len ik r show ?thesis by simp
      next
        case False
        have "invocationOk (\<lambda>p. Suc k \<le> i \<and> w p) ?s1 i"
        proof (cases "k \<le> i")
          case True
          with False have "Suc k \<le> i" by simp
          with ok True show ?thesis by simp
        next
          case nk: False
          with ok have "invocationOk (\<lambda>p. False) ?s1 i" by simp
          then show ?thesis by (rule invocationOk_weaken)
        qed
        from continue_ok_other[OF False _ this] i len r show ?thesis by simp
      qed
    next
      case False
      then have r: "resumeUpTo f w (Suc k) s = ?s1" by (simp add: Let_def)
      show ?thesis
      proof (cases "i = k")
        case True
        with ok have "invocationOk w ?s1 k" by simp
        from invocationOk_not_exempt[OF this False] True r show ?thesis by simp
      next
        case ik: False
        show ?thesis
        proof (cases "k \<le> i")
          case True
          with ik have "Suc k \<le> i" by simp
          with ok True r show ?thesis by simp
        next
          case nk: False
          with ok have "invocationOk (\<lambda>p. False) ?s1 i" by simp
          then show ?thesis unfolding r by (rule invocationOk_weaken)
        qed
      qed
    qed
  qed
qed

lemma resume_waitInv:
  assumes "\<forall>i < length (invocations s). invocationOk w s i" and "signalled w s"
  shows "waitInv (resume f w s)"
proof -
  from resumeUpTo_ok[OF assms, of "length (invocations s)" f]
  show ?thesis by (simp add: waitInv_def resume_def)
qed

lemma invocationOk_frame:
  assumes "invocationOk ex s i"
    and "invocations s' ! i = invocations s ! i"
    and "set (trace s) \<subseteq> set (trace s')"
    and "closeFulfilled s \<longrightarrow> closeFulfilled s'"
    and "cleanupFulfilled s \<longrightarrow> cleanupFulfilled s'"
    and "ex AwaitClose \<or> \<not> closeFulfilled s \<longrightarrow> ex' AwaitClose \<or> \<not> closeFulfilled s'"
    and "ex AwaitCleanup \<or> \<not> cleanupFulfilled s \<longrightarrow> ex' AwaitCleanup \<or> \<not> cleanupFulfilled s'"
    and "ex KillWaiting \<or> \<not> cleanupFulfilled s \<longrightarrow> ex' KillWaiting \<or> \<not> cleanupFulfilled s'"
  shows "invocationOk ex' s' i"
proof (cases "pc (invocations s ! i)")
  case AwaitAttempt
  with assms(1,2) show ?thesis by (simp add: invocationOk_def)
next
  case AwaitCleanup
  with assms(1,2,7) show ?thesis by (auto simp: invocationOk_def)
next
  case AwaitClose
  with assms(1,2,6) show ?thesis by (auto simp: invocationOk_def)
next
  case KillWaiting
  with assms(1,2,8) show ?thesis by (auto simp: invocationOk_def)
next
  case Settled
  with assms(1,2,3,4,5) show ?thesis by (auto simp: invocationOk_def split: if_splits)
qed

lemma waitInv_frame:
  assumes "waitInv s" and "invocations s' = invocations s"
    and "set (trace s) \<subseteq> set (trace s')"
    and "closeFulfilled s' = closeFulfilled s" and "cleanupFulfilled s' = cleanupFulfilled s"
  shows "waitInv s'"
  unfolding waitInv_def
proof (intro allI impI)
  fix i assume "i < length (invocations s')"
  with assms(1,2) have "invocationOk (\<lambda>p. False) s i" by (simp add: waitInv_def)
  then show "invocationOk (\<lambda>p. False) s' i"
    by (rule invocationOk_frame) (simp_all add: assms)
qed

lemma continue_waitInv:
  assumes "i < length (invocations s)"
    and "\<forall>j < length (invocations s). j \<noteq> i \<longrightarrow> invocationOk (\<lambda>p. False) s j"
    and "invocationOk w s i" and "w (pc (invocations s ! i))" and "signalled w s"
  shows "waitInv (continue f i s)"
  unfolding waitInv_def
proof (intro allI impI)
  fix j assume "j < length (invocations (continue f i s))"
  then have j: "j < length (invocations s)" by simp
  show "invocationOk (\<lambda>p. False) (continue f i s) j"
  proof (cases "j = i")
    case True
    with continue_ok_self[OF assms(1,3,4,5)] show ?thesis by simp
  next
    case False
    with assms(2) j have "invocationOk (\<lambda>p. False) s j" by simp
    from continue_ok_other[OF False j this] show ?thesis .
  qed
qed

lemma signalled_awaitsClose: "closeFulfilled s \<Longrightarrow> signalled awaitsClose s"
  by (simp add: signalled_def awaitsClose_def)

lemma signalled_awaitsCleanup: "cleanupFulfilled s \<Longrightarrow> signalled awaitsCleanup s"
  by (auto simp: signalled_def awaitsCleanup_def)

lemma invocationOk_exempt:
  assumes "invocationOk ex s i"
    and "ex (pc (invocations s ! i)) \<Longrightarrow> ex' (pc (invocations s ! i))"
  shows "invocationOk ex' s i"
proof (cases "pc (invocations s ! i)")
  case AwaitAttempt
  with assms(1) show ?thesis by (simp add: invocationOk_def)
next
  case AwaitCleanup
  with assms show ?thesis by (auto simp: invocationOk_def)
next
  case AwaitClose
  with assms show ?thesis by (auto simp: invocationOk_def)
next
  case KillWaiting
  with assms show ?thesis by (auto simp: invocationOk_def)
next
  case Settled
  with assms(1) show ?thesis by (simp add: invocationOk_def)
qed

text \<open>The loop of \<open>resume\<close> when more program points are exempt than it resumes: those of
  \<open>w\<close> are dealt with below \<open>k\<close>, the others stay exempt.\<close>

lemma resumeUpTo_some:
  assumes "\<forall>i < length (invocations s). invocationOk ex s i"
    and "signalled w s" and "k \<le> length (invocations s)"
  shows "\<forall>i < length (invocations s).
           invocationOk (\<lambda>p. ex p \<and> (k \<le> i \<or> \<not> w p)) (resumeUpTo f w k s) i"
  using assms(3)
proof (induction k)
  case 0
  from assms(1) show ?case by simp
next
  case (Suc k)
  let ?s1 = "resumeUpTo f w k s"
  from Suc
  have IH: "\<forall>i < length (invocations s). invocationOk (\<lambda>p. ex p \<and> (k \<le> i \<or> \<not> w p)) ?s1 i"
    and k: "k < length (invocations s)" by simp_all
  have len: "length (invocations ?s1) = length (invocations s)" by simp
  have sg: "signalled w ?s1" using assms(2) by (simp add: signalled_resumeUpTo)
  show ?case
  proof (intro allI impI)
    fix i assume i: "i < length (invocations s)"
    from IH i have ok: "invocationOk (\<lambda>p. ex p \<and> (k \<le> i \<or> \<not> w p)) ?s1 i" by simp
    show "invocationOk (\<lambda>p. ex p \<and> (Suc k \<le> i \<or> \<not> w p)) (resumeUpTo f w (Suc k) s) i"
    proof (cases "w (pc (invocations ?s1 ! k))")
      case True
      then have r: "resumeUpTo f w (Suc k) s = continue f k ?s1" by (simp add: Let_def)
      show ?thesis
      proof (cases "i = k")
        case ik: True
        from ok ik True have "invocationOk w ?s1 k" by (auto intro: invocationOk_exempt)
        from continue_ok_self[OF _ this True sg] k len ik r show ?thesis by simp
      next
        case False
        from ok False have "invocationOk (\<lambda>p. ex p \<and> (Suc k \<le> i \<or> \<not> w p)) ?s1 i"
          by (auto intro: invocationOk_exempt)
        from continue_ok_other[OF False _ this] i len r show ?thesis by simp
      qed
    next
      case False
      then have r: "resumeUpTo f w (Suc k) s = ?s1" by (simp add: Let_def)
      show ?thesis
      proof (cases "i = k")
        case True
        with ok False show ?thesis unfolding r by (auto intro: invocationOk_exempt)
      next
        case ik: False
        with ok show ?thesis unfolding r by (auto intro: invocationOk_exempt)
      qed
    qed
  qed
qed

lemma waitInv_fulfillCleanup:
  assumes "waitInv s"
  shows "waitInv (fulfillCleanup f s)"
proof -
  let ?s1 = "emit FulfillCleanup (s\<lparr>cleanupFulfilled := True\<rparr>)"
  let ?s2 = "resume f (\<lambda>p. p = KillWaiting) ?s1"
  have ok1: "\<forall>i < length (invocations ?s1). invocationOk awaitsCleanup ?s1 i"
  proof (intro allI impI)
    fix i assume "i < length (invocations ?s1)"
    with assms have "invocationOk (\<lambda>p. False) s i" by (simp add: waitInv_def emit_def)
    then show "invocationOk awaitsCleanup ?s1 i"
      by (rule invocationOk_frame) (auto simp: emit_def awaitsCleanup_def)
  qed
  have sg1: "signalled (\<lambda>p. p = KillWaiting) ?s1"
    by (simp add: signalled_def emit_def)
  have ok2: "\<forall>i < length (invocations ?s2). invocationOk (\<lambda>p. p = AwaitCleanup) ?s2 i"
  proof (intro allI impI)
    fix i assume "i < length (invocations ?s2)"
    then have i: "i < length (invocations ?s1)" by (simp add: resume_def)
    from resumeUpTo_some[OF ok1 sg1, of "length (invocations ?s1)" f] i
    have "invocationOk
        (\<lambda>p. awaitsCleanup p \<and> (length (invocations ?s1) \<le> i \<or> \<not> p = KillWaiting)) ?s2 i"
      by (simp add: resume_def)
    then show "invocationOk (\<lambda>p. p = AwaitCleanup) ?s2 i"
      by (rule invocationOk_exempt) (use i in \<open>auto simp: awaitsCleanup_def\<close>)
  qed
  have sg2: "signalled (\<lambda>p. p = AwaitCleanup) ?s2"
    by (simp add: signalled_def resume_def emit_def)
  from ok2 sg2 have "waitInv (resume f (\<lambda>p. p = AwaitCleanup) ?s2)" by (rule resume_waitInv)
  then show ?thesis by (simp add: fulfillCleanup_def Let_def)
qed

lemma waitInv_onProcessExit:
  assumes "waitInv s"
  shows "waitInv (onProcessExit f c sg s)"
proof -
  let ?s6 = "cleanup (fulfillClose (emit (OnExit c sg) (removeEventListeners
      ((emit (Log browserLog (ProcessDidExit c sg)) s)\<lparr>processClosed := True\<rparr>))))"
  have "\<forall>i < length (invocations ?s6). invocationOk awaitsClose ?s6 i"
  proof (intro allI impI)
    fix i assume "i < length (invocations ?s6)"
    with assms have "invocationOk (\<lambda>p. False) s i"
      by (simp add: waitInv_def emit_def cleanup_eq fulfillClose_def removeEventListeners_def)
    then show "invocationOk awaitsClose ?s6 i"
      by (rule invocationOk_frame)
         (auto simp: emit_def cleanup_eq fulfillClose_def removeEventListeners_def
            awaitsClose_def)
  qed
  moreover have "signalled awaitsClose ?s6"
    by (simp add: signalled_awaitsClose emit_def cleanup_eq fulfillClose_def
        removeEventListeners_def)
  ultimately have w7: "waitInv (resume f awaitsClose ?s6)" by (rule resume_waitInv)
  show ?thesis
    using w7 waitInv_fulfillCleanup[OF w7, of f]
    by (simp add: onProcessExit_def Let_def)
qed

lemma waitInv_rejectLaunch: "waitInv s \<Longrightarrow> waitInv (rejectLaunch s)"
  by (erule waitInv_frame) (auto simp: rejectLaunch_def emit_def split: option.splits)

lemma waitInv_removeFolderDone:
  assumes "waitInv s"
  shows "waitInv (removeFolderDone f d ok s)"
proof -
  let ?s2 = "(if ok then s\<lparr>removing := remove1 d (removing s)\<rparr>
             else emit (ConsoleError d) (s\<lparr>removing := remove1 d (removing s)\<rparr>))"
  have w2: "waitInv ?s2"
    using assms by (rule waitInv_frame) (auto simp: emit_def)
  show ?thesis
    using w2 waitInv_fulfillCleanup[OF w2, of f] waitInv_rejectLaunch[OF w2]
    by (simp add: removeFolderDone_def Let_def)
qed

lemma waitInv_hostExit: "waitInv s \<Longrightarrow> waitInv (hostExit f s)"
  by (erule waitInv_frame) (auto simp: hostExit_eq)

lemma waitInv_launch: "waitInv (launchProcess w options p)"
  by (simp add: waitInv_def launchProcess_def blank_def emit_def addEventListener_def Let_def
      cleanup_eq rejectLaunch_def)

lemma attempting_Some:
  assumes "attempting s = Some i"
  shows "i < length (invocations s) \<and> pc (invocations s ! i) = AwaitAttempt"
proof -
  let ?xs = "filter (\<lambda>i. pc (invocations s ! i) = AwaitAttempt) [0..<length (invocations s)]"
  from assms obtain rest where "?xs = i # rest"
    by (auto simp: attempting_def split: list.splits)
  then have "i \<in> set ?xs" by simp
  then show ?thesis by simp
qed

lemma invocationOk_old:
  assumes "waitInv s" and "invocations s' = invocations s @ [v]"
    and "set (trace s) \<subseteq> set (trace s')"
    and "closeFulfilled s' = closeFulfilled s" and "cleanupFulfilled s' = cleanupFulfilled s"
    and "j < length (invocations s)"
  shows "invocationOk (\<lambda>p. False) s' j"
proof -
  from assms(1,6) have "invocationOk (\<lambda>p. False) s j" by (simp add: waitInv_def)
  then show ?thesis
    by (rule invocationOk_frame) (simp_all add: assms nth_append)
qed

lemma waitInv_gracefullyClose:
  assumes "waitInv s"
  shows "waitInv (gracefullyClose f ex s)"
proof (cases "gracefullyClosing s")
  case False
  let ?s' = "s\<lparr>gracefullyClosing := True,
          trace := trace s @ [Log browserLog GracefullyCloseStart, AttemptToGracefullyClose],
          invocations := invocations s @
            [\<lparr> caller = FirstClose, pc = AwaitAttempt, thenExit = ex \<rparr>]\<rparr>"
  have "waitInv ?s'"
    unfolding waitInv_def
  proof (intro allI impI)
    fix j assume j: "j < length (invocations ?s')"
    show "invocationOk (\<lambda>p. False) ?s' j"
    proof (cases "j < length (invocations s)")
      case True
      show ?thesis by (rule invocationOk_old[OF assms _ _ _ _ True]) auto
    next
      case nj: False
      with j have "j = length (invocations s)" by simp
      then show ?thesis by (simp add: invocationOk_def)
    qed
  qed
  with False show ?thesis by (simp add: gracefullyClose_eq)
next
  case True
  let ?n = "length (invocations s)"
  let ?s3 = "s\<lparr>listeners := [],
                trace := trace s @ Log browserLog ForcefullyClose # killEffects f s,
                invocations := invocations s @
                  [\<lparr> caller = ReentrantClose, pc = AwaitClose, thenExit = ex \<rparr>]\<rparr>"
  have old: "\<forall>j < length (invocations ?s3). j \<noteq> ?n \<longrightarrow> invocationOk (\<lambda>p. False) ?s3 j"
  proof (intro allI impI)
    fix j assume "j < length (invocations ?s3)" and "j \<noteq> ?n"
    then have j: "j < length (invocations s)" by simp
    show "invocationOk (\<lambda>p. False) ?s3 j"
      by (rule invocationOk_old[OF assms _ _ _ _ j]) auto
  qed
  show ?thesis
  proof (cases "closeFulfilled s")
    case cf: True
    have new: "invocationOk awaitsClose ?s3 ?n"
      by (simp add: invocationOk_def awaitsClose_def)
    have "waitInv (continue f ?n ?s3)"
      by (rule continue_waitInv[OF _ old new])
         (simp_all add: awaitsClose_def signalled_def cf)
    with True cf show ?thesis by (simp add: gracefullyClose_eq Let_def)
  next
    case ncf: False
    have "waitInv ?s3"
      unfolding waitInv_def
    proof (intro allI impI)
      fix j assume j: "j < length (invocations ?s3)"
      show "invocationOk (\<lambda>p. False) ?s3 j"
      proof (cases "j = ?n")
        case True
        with ncf show ?thesis by (simp add: invocationOk_def)
      next
        case False
        with old j show ?thesis by blast
      qed
    qed
    with True ncf show ?thesis by (simp add: gracefullyClose_eq Let_def)
  qed
qed

lemma waitInv_killAndWait:
  assumes "waitInv s"
  shows "waitInv (killAndWait f s)"
proof -
  let ?n = "length (invocations s)"
  let ?s2 = "s\<lparr>listeners := [], trace := trace s @ killEffects f s,
                invocations := invocations s @
                  [\<lparr> caller = KillAndWait, pc = KillWaiting, thenExit = False \<rparr>]\<rparr>"
  have old: "\<forall>j < length (invocations ?s2). j \<noteq> ?n \<longrightarrow> invocationOk (\<lambda>p. False) ?s2 j"
  proof (intro allI impI)
    fix j assume "j < length (invocations ?s2)" and "j \<noteq> ?n"
    then have j: "j < length (invocations s)" by simp
    show "invocationOk (\<lambda>p. False) ?s2 j"
      by (rule invocationOk_old[OF assms _ _ _ _ j]) auto
  qed
  show ?thesis
  proof (cases "cleanupFulfilled s")
    case cf: True
    have new: "invocationOk awaitsCleanup ?s2 ?n"
      by (simp add: invocationOk_def awaitsCleanup_def)
    have "waitInv (continue f ?n ?s2)"
      by (rule continue_waitInv[OF _ old new])
         (auto simp: awaitsCleanup_def signalled_def cf)
    with cf show ?thesis by (simp add: killAndWait_eq Let_def)
  next
    case ncf: False
    have "waitInv ?s2"
      unfolding waitInv_def
    proof (intro allI impI)
      fix j assume j: "j < length (invocations ?s2)"
      show "invocationOk (\<lambda>p. False) ?s2 j"
      proof (cases "j = ?n")
        case True
        with ncf show ?thesis by (simp add: invocationOk_def)
      next
        case False
        with old j show ?thesis by blast
      qed
    qed
    with ncf show ?thesis by (simp add: killAndWait_eq Let_def)
  qed
qed

lemma waitInv_attemptSettled:
  assumes "waitInv s" and "attempting s = Some i"
  shows "waitInv (attemptSettled f ok i s)"
proof -
  from attempting_Some[OF assms(2)]
  have i: "i < length (invocations s)" and p: "pc (invocations s ! i) = AwaitAttempt"
    by simp_all
  from assms(1) i have "invocationOk (\<lambda>p. False) s i" by (simp add: waitInv_def)
  with p have c: "caller (invocations s ! i) = FirstClose" by (simp add: invocationOk_def)
  define s1 where "s1 = (if ok then s else s\<lparr>listeners := [], trace := trace s @ killEffects f s\<rparr>)"
  define s2 where "s2 = setPc i AwaitCleanup s1"
  have s1: "invocations s1 = invocations s" "closeFulfilled s1 = closeFulfilled s"
    "cleanupFulfilled s1 = cleanupFulfilled s" "set (trace s) \<subseteq> set (trace s1)"
    by (auto simp: s1_def)
  have s2: "invocations s2 = (invocations s)[i := (invocations s ! i)\<lparr>pc := AwaitCleanup\<rparr>]"
    "closeFulfilled s2 = closeFulfilled s" "cleanupFulfilled s2 = cleanupFulfilled s"
    "set (trace s) \<subseteq> set (trace s2)"
    using s1 by (simp_all add: s2_def setPc_def)
  have eq: "attemptSettled f ok i s = (if cleanupFulfilled s then continue f i s2 else s2)"
    by (simp add: attemptSettled_eq Let_def s1_def s2_def)
  have old: "\<forall>j < length (invocations s2). j \<noteq> i \<longrightarrow> invocationOk (\<lambda>p. False) s2 j"
  proof (intro allI impI)
    fix j assume "j < length (invocations s2)" and ji: "j \<noteq> i"
    then have j: "j < length (invocations s)" by (simp add: s2)
    with assms(1) have "invocationOk (\<lambda>p. False) s j" by (simp add: waitInv_def)
    then show "invocationOk (\<lambda>p. False) s2 j"
      by (rule invocationOk_frame) (use ji s2 in simp_all)
  qed
  have i2: "i < length (invocations s2)" using i by (simp add: s2)
  show ?thesis
  proof (cases "cleanupFulfilled s")
    case cf: True
    have new: "invocationOk awaitsCleanup s2 i"
      using i c by (simp add: invocationOk_def awaitsCleanup_def s2)
    have w: "awaitsCleanup (pc (invocations s2 ! i))"
      using i by (simp add: awaitsCleanup_def s2)
    have sg: "signalled awaitsCleanup s2"
      using cf by (simp add: signalled_awaitsCleanup s2)
    have "waitInv (continue f i s2)"
      by (rule continue_waitInv[OF i2 old new w sg])
    with cf show ?thesis by (simp add: eq)
  next
    case ncf: False
    have "waitInv s2"
      unfolding waitInv_def
    proof (intro allI impI)
      fix j assume j: "j < length (invocations s2)"
      show "invocationOk (\<lambda>p. False) s2 j"
      proof (cases "j = i")
        case True
        with ncf i c show ?thesis by (simp add: invocationOk_def s2)
      next
        case False
        with old j show ?thesis by blast
      qed
    qed
    with ncf show ?thesis by (simp add: eq)
  qed
qed

lemma waitInv_step: "waitInv s \<Longrightarrow> waitInv (step f s e)"
proof (cases e)
  case (ChildExit c sg)
  assume a: "waitInv s"
  have "waitInv (s\<lparr>exitObserver := False\<rparr>)"
    using a by (rule waitInv_frame) simp_all
  then show ?thesis unfolding ChildExit using a by (simp add: waitInv_onProcessExit)
next
  case (ChildError m)
  assume a: "waitInv s"
  have "waitInv (s\<lparr>errorObserver := False, failed := Some m\<rparr>)"
    using a by (rule waitInv_frame) simp_all
  then show ?thesis unfolding ChildError using a by (simp add: waitInv_rejectLaunch)
next
  case ChildEnds
  assume "waitInv s"
  then show ?thesis unfolding ChildEnds by simp
next
  case ChildKillSent
  assume a: "waitInv s"
  have "waitInv (s\<lparr>killed := True\<rparr>)"
    using a by (rule waitInv_frame) simp_all
  then show ?thesis unfolding ChildKillSent by simp
next
  case (StdoutLine d)
  assume a: "waitInv s"
  have "waitInv (emit (Log browserStdOutLog (Data d)) s)"
    using a by (rule waitInv_frame) (auto simp: emit_def)
  then show ?thesis unfolding StdoutLine using a by simp
next
  case (StderrLine d)
  assume a: "waitInv s"
  have "waitInv (emit (Log browserStdErrLog (Data d)) s)"
    using a by (rule waitInv_frame) (auto simp: emit_def)
  then show ?thesis unfolding StderrLine using a by simp
next
  case (Host h)
  assume "waitInv s"
  then show ?thesis unfolding Host
    by (cases h) (simp_all add: waitInv_gracefullyClose waitInv_hostExit)
next
  case CallGracefullyClose
  assume "waitInv s"
  then show ?thesis unfolding CallGracefullyClose by (simp add: waitInv_gracefullyClose)
next
  case CallKill
  assume "waitInv s"
  then show ?thesis unfolding CallKill by (simp add: waitInv_killAndWait)
next
  case AttemptResolved
  assume "waitInv s"
  then show ?thesis unfolding AttemptResolved
    by (cases "attempting s") (simp_all add: waitInv_attemptSettled)
next
  case AttemptRejected
  assume "waitInv s"
  then show ?thesis unfolding AttemptRejected
    by (cases "attempting s") (simp_all add: waitInv_attemptSettled)
next
  case (RemoveFolderFinished d ok)
  assume "waitInv s"
  then show ?thesis unfolding RemoveFolderFinished by (simp add: waitInv_removeFolderDone)
qed

lemma waitInv_run: "waitInv s \<Longrightarrow> waitInv (run s evs)"
proof (induction evs arbitrary: s)
  case Nil
  then show ?case by simp
next
  case (Cons a evs)
  obtain f e where a: "a = (f, e)" by (cases a)
  from Cons.prems have "waitInv (step f s e)" by (rule waitInv_step)
  from Cons.IH[OF this] show ?case by (simp add: a)
qed

lemma waitInv_reachable: "waitInv (run (launchProcess w options p) evs)"
  by (simp add: waitInv_run waitInv_launch)

subsection \<open>Calls of the callbacks\<close>

lemma rare_removeAttempts: "filter rare (removeAttempts f dirs) = []"
  by (induction dirs) (simp_all add: rare_def)

lemma rare_killEffects: "filter rare (killEffects f s) = []"
  by (simp add: killEffects_def rare_removeAttempts) (simp add: rare_def)

lemma rare_continueEffects: "filter rare (continueEffects f i s) = []"
  by (simp add: continueEffects_def exitEffects_def rare_killEffects split: pc.splits)
     (simp add: rare_def)

lemma rare_continue: "filter rare (trace (continue f i s)) = filter rare (trace s)"
  by (simp add: continue_trace rare_continueEffects)

lemma rare_resumeUpTo: "filter rare (trace (resumeUpTo f w k s)) = filter rare (trace s)"
  by (rule resumeUpTo_induct[where P="\<lambda>s'. filter rare (trace s') = filter rare (trace s)"])
     (simp_all add: rare_continue)

lemma rare_fulfillCleanup: "filter rare (trace (fulfillCleanup f s)) = filter rare (trace s)"
  by (simp add: fulfillCleanup_def Let_def resume_def rare_resumeUpTo emit_def)
     (simp add: rare_def)

lemma rare_map_async: "filter rare (map RemoveFolderAsync dirs) = []"
  by (induction dirs) (simp_all add: rare_def)

lemma rare_onProcessExit:
  "filter rare (trace (onProcessExit f c sg s)) = filter rare (trace s) @ [OnExit c sg]"
  by (simp add: onProcessExit_def Let_def rare_fulfillCleanup resume_def rare_resumeUpTo
      cleanup_eq fulfillClose_def emit_def removeEventListeners_def rare_map_async)
     (simp add: rare_def)

lemma rare_gracefullyClose:
  "filter rare (trace (gracefullyClose f ex s)) =
     filter rare (trace s) @ (if gracefullyClosing s then [] else [AttemptToGracefullyClose])"
  by (simp add: gracefullyClose_eq Let_def rare_continue rare_killEffects)
     (simp add: rare_def)

lemma rare_killAndWait: "filter rare (trace (killAndWait f s)) = filter rare (trace s)"
  by (simp add: killAndWait_eq Let_def rare_continue rare_killEffects)

lemma rare_attemptSettled: "filter rare (trace (attemptSettled f ok i s)) = filter rare (trace s)"
  by (simp add: attemptSettled_eq Let_def rare_continue rare_killEffects setPc_def)

lemma rare_hostExit: "filter rare (trace (hostExit f s)) = filter rare (trace s)"
  by (simp add: hostExit_eq rare_killEffects)

lemma rare_rejectLaunch: "filter rare (trace (rejectLaunch s)) = filter rare (trace s)"
  by (simp add: rejectLaunch_def emit_def rare_def split: option.splits)

lemma rare_removeFolderDone:
  "filter rare (trace (removeFolderDone f d ok s)) = filter rare (trace s)"
  by (simp add: removeFolderDone_def Let_def rare_fulfillCleanup rare_rejectLaunch emit_def)
     (simp add: rare_def)

lemma rare_step: "filter rare (trace (step f s e)) = filter rare (trace s) @ rareEffects s e"
proof (cases e)
  case (Host h)
  show ?thesis unfolding Host
    by (cases h) (simp_all add: rareEffects_def rare_hostExit rare_gracefullyClose)
next
  case AttemptResolved
  show ?thesis unfolding AttemptResolved
    by (cases "attempting s") (simp_all add: rareEffects_def rare_attemptSettled)
next
  case AttemptRejected
  show ?thesis unfolding AttemptRejected
    by (cases "attempting s") (simp_all add: rareEffects_def rare_attemptSettled)
next
  case (StdoutLine d)
  show ?thesis unfolding StdoutLine by (simp add: rareEffects_def emit_def rare_def)
next
  case (StderrLine d)
  show ?thesis unfolding StderrLine by (simp add: rareEffects_def emit_def rare_def)
qed (simp_all add: rareEffects_def rare_onProcessExit rare_rejectLaunch rare_gracefullyClose
      rare_killAndWait rare_removeFolderDone)

lemma rare_launch: "filter rare (trace (launchProcess w options p)) = []"
  by (simp add: launchProcess_def blank_def emit_def addEventListener_def Let_def cleanup_eq
      rare_rejectLaunch rare_map_async rare_def)

subsection \<open>The order of the effects\<close>

lemma precedes_append:
  "precedes P Q (xs @ ys) = (precedes P Q xs \<and> ((\<exists>x \<in> set xs. P x) \<or> precedes P Q ys))"
  by (induction xs) auto

lemma precedes_filter:
  assumes "\<And>e. P e \<or> Q e \<Longrightarrow> M e"
  shows "precedes P Q (filter M t) = precedes P Q t"
  using assms by (induction t) auto

lemma precedes_trans:
  assumes "precedes P Q t" and "precedes Q R t"
  shows "precedes P R t"
  using assms by (induction t) (auto split: if_splits)

lemma marker_removeAttempts: "filter marker (removeAttempts f dirs) = []"
  by (induction dirs) simp_all

lemma marker_killEffects: "filter marker (killEffects f s) = []"
  by (simp add: killEffects_def marker_removeAttempts)

lemma marker_continue:
  "markers (continue f i s) =
     markers s @
     (case pc (invocations s ! i) of
        AwaitCleanup \<Rightarrow> [Resolve FirstClose i]
      | AwaitClose \<Rightarrow> [Resolve ReentrantClose i]
      | KillWaiting \<Rightarrow> [Resolve KillAndWait i]
      | _ \<Rightarrow> [])"
  by (simp add: markers_def continue_trace continueEffects_def exitEffects_def
      marker_killEffects split: pc.splits)

lemma orderInv_continue:
  assumes "orderInv s" and "w (pc (invocations s ! i))" and "signalled w s"
  shows "orderInv (continue f i s)"
proof -
  from assms(2,3) have sg:
    "(pc (invocations s ! i) = AwaitClose \<and> closeFulfilled s) \<or>
     ((pc (invocations s ! i) = AwaitCleanup \<or> pc (invocations s ! i) = KillWaiting) \<and>
      cleanupFulfilled s)"
    by (simp add: signalled_def)
  then show ?thesis
  proof (elim disjE conjE)
    assume "pc (invocations s ! i) = AwaitClose" and "closeFulfilled s"
    with assms(1) show ?thesis
      by (simp add: orderInv_def marker_continue precedes_append)
  next
    assume "pc (invocations s ! i) = AwaitCleanup" and "cleanupFulfilled s"
    with assms(1) show ?thesis
      by (simp add: orderInv_def marker_continue precedes_append)
  next
    assume "pc (invocations s ! i) = KillWaiting" and "cleanupFulfilled s"
    with assms(1) show ?thesis
      by (simp add: orderInv_def marker_continue precedes_append)
  qed
qed

lemma orderInv_resume:
  assumes "orderInv s" and "signalled w s"
  shows "orderInv (resume f w s)"
proof -
  have "orderInv (resumeUpTo f w (length (invocations s)) s) \<and>
        signalled w (resumeUpTo f w (length (invocations s)) s)"
    by (rule resumeUpTo_induct[where P="\<lambda>s'. orderInv s' \<and> signalled w s'"])
       (simp_all add: assms orderInv_continue signalled_continue)
  then show ?thesis by (simp add: resume_def)
qed

lemma orderInv_fulfillCleanup:
  assumes "orderInv s" and "closeFulfilled s"
  shows "orderInv (fulfillCleanup f s)"
proof -
  let ?s1 = "emit FulfillCleanup (s\<lparr>cleanupFulfilled := True\<rparr>)"
  let ?s2 = "resume f (\<lambda>p. p = KillWaiting) ?s1"
  from assms have "orderInv ?s1"
    by (simp add: orderInv_def markers_def emit_def precedes_append)
  moreover have "signalled (\<lambda>p. p = KillWaiting) ?s1"
    by (simp add: signalled_def emit_def)
  ultimately have "orderInv ?s2" by (rule orderInv_resume)
  moreover have "signalled (\<lambda>p. p = AwaitCleanup) ?s2"
    by (simp add: signalled_def resume_def emit_def)
  ultimately have "orderInv (resume f (\<lambda>p. p = AwaitCleanup) ?s2)" by (rule orderInv_resume)
  then show ?thesis by (simp add: fulfillCleanup_def Let_def)
qed

lemma marker_map_async: "filter marker (map RemoveFolderAsync dirs) = []"
  by (induction dirs) simp_all

lemma orderInv_onProcessExit:
  assumes "orderInv s" and "\<not> closeFulfilled s" and "\<not> cleanupFulfilled s"
  shows "orderInv (onProcessExit f c sg s)"
proof -
  let ?s6 = "cleanup (fulfillClose (emit (OnExit c sg) (removeEventListeners
      ((emit (Log browserLog (ProcessDidExit c sg)) s)\<lparr>processClosed := True\<rparr>))))"
  have m6: "markers ?s6 = markers s @ [OnExit c sg, FulfillClose]"
    by (simp add: markers_def emit_def cleanup_eq fulfillClose_def removeEventListeners_def
        marker_map_async)
  have f6: "closeFulfilled ?s6" "cleanupFulfilled ?s6 = cleanupFulfilled s"
    by (simp_all add: emit_def cleanup_eq fulfillClose_def removeEventListeners_def)
  from assms have o6: "orderInv ?s6"
    by (simp add: orderInv_def m6 f6 precedes_append)
  have "signalled awaitsClose ?s6" using f6(1) by (rule signalled_awaitsClose)
  with o6 have o7: "orderInv (resume f awaitsClose ?s6)" by (rule orderInv_resume)
  have c7: "closeFulfilled (resume f awaitsClose ?s6)"
    using f6(1) by (simp add: resume_def)
  from o7 orderInv_fulfillCleanup[OF o7 c7, of f] show ?thesis
    by (simp add: onProcessExit_def Let_def)
qed

lemma orderInv_frame:
  assumes "orderInv s" and "markers s' = markers s"
    and "closeFulfilled s' = closeFulfilled s" and "cleanupFulfilled s' = cleanupFulfilled s"
  shows "orderInv s'"
  using assms by (simp add: orderInv_def)

lemma orderInv_gracefullyClose:
  assumes "orderInv s"
  shows "orderInv (gracefullyClose f ex s)"
proof (cases "gracefullyClosing s")
  case False
  have "orderInv (s\<lparr>gracefullyClosing := True,
          trace := trace s @ [Log browserLog GracefullyCloseStart, AttemptToGracefullyClose],
          invocations := invocations s @
            [\<lparr> caller = FirstClose, pc = AwaitAttempt, thenExit = ex \<rparr>]\<rparr>)"
    using assms by (rule orderInv_frame) (simp_all add: markers_def)
  with False show ?thesis by (simp add: gracefullyClose_eq)
next
  case True
  define s3 where "s3 = s\<lparr>listeners := [],
                trace := trace s @ Log browserLog ForcefullyClose # killEffects f s,
                invocations := invocations s @
                  [\<lparr> caller = ReentrantClose, pc = AwaitClose, thenExit = ex \<rparr>]\<rparr>"
  have o3: "orderInv s3"
    using assms by (rule orderInv_frame) (simp_all add: s3_def markers_def marker_killEffects)
  have eq: "gracefullyClose f ex s =
      (if closeFulfilled s then continue f (length (invocations s)) s3 else s3)"
    using True by (simp add: gracefullyClose_eq Let_def s3_def)
  show ?thesis
  proof (cases "closeFulfilled s")
    case cf: True
    have "orderInv (continue f (length (invocations s)) s3)"
      by (rule orderInv_continue[OF o3, where w=awaitsClose])
         (simp_all add: s3_def awaitsClose_def signalled_def cf)
    with cf show ?thesis by (simp add: eq)
  next
    case False
    with o3 show ?thesis by (simp add: eq)
  qed
qed

lemma orderInv_killAndWait:
  assumes "orderInv s"
  shows "orderInv (killAndWait f s)"
proof -
  define s2 where "s2 = s\<lparr>listeners := [], trace := trace s @ killEffects f s,
                invocations := invocations s @
                  [\<lparr> caller = KillAndWait, pc = KillWaiting, thenExit = False \<rparr>]\<rparr>"
  have o2: "orderInv s2"
    using assms by (rule orderInv_frame) (simp_all add: s2_def markers_def marker_killEffects)
  have eq: "killAndWait f s =
      (if cleanupFulfilled s then continue f (length (invocations s)) s2 else s2)"
    by (simp add: killAndWait_eq Let_def s2_def)
  show ?thesis
  proof (cases "cleanupFulfilled s")
    case cf: True
    have "orderInv (continue f (length (invocations s)) s2)"
      by (rule orderInv_continue[OF o2, where w=awaitsCleanup])
         (auto simp: s2_def awaitsCleanup_def signalled_def cf)
    with cf show ?thesis by (simp add: eq)
  next
    case False
    with o2 show ?thesis by (simp add: eq)
  qed
qed

lemma orderInv_attemptSettled:
  assumes "orderInv s" and "i < length (invocations s)"
  shows "orderInv (attemptSettled f ok i s)"
proof -
  define s2 where "s2 = setPc i AwaitCleanup
      (if ok then s else s\<lparr>listeners := [], trace := trace s @ killEffects f s\<rparr>)"
  have o2: "orderInv s2"
    using assms(1)
    by (rule orderInv_frame) (simp_all add: s2_def setPc_def markers_def marker_killEffects)
  have eq: "attemptSettled f ok i s = (if cleanupFulfilled s then continue f i s2 else s2)"
    by (simp add: attemptSettled_eq Let_def s2_def)
  have p2: "pc (invocations s2 ! i) = AwaitCleanup"
    using assms(2) by (simp add: s2_def setPc_def)
  have c2: "cleanupFulfilled s2 = cleanupFulfilled s"
    by (simp add: s2_def setPc_def)
  show ?thesis
  proof (cases "cleanupFulfilled s")
    case cf: True
    have "orderInv (continue f i s2)"
      by (rule orderInv_continue[OF o2, where w=awaitsCleanup])
         (auto simp: p2 c2 awaitsCleanup_def signalled_def cf)
    with cf show ?thesis by (simp add: eq)
  next
    case False
    with o2 show ?thesis by (simp add: eq)
  qed
qed

lemma orderInv_hostExit: "orderInv s \<Longrightarrow> orderInv (hostExit f s)"
  by (erule orderInv_frame) (simp_all add: hostExit_eq markers_def marker_killEffects)

lemma orderInv_rejectLaunch: "orderInv s \<Longrightarrow> orderInv (rejectLaunch s)"
  by (erule orderInv_frame)
     (simp_all add: rejectLaunch_def markers_def emit_def split: option.splits)

lemma orderInv_removeFolderDone:
  assumes "orderInv s" and "closeFulfilled s \<or> pid s = 0"
  shows "orderInv (removeFolderDone f d ok s)"
proof -
  define s2 where "s2 = (if ok then s\<lparr>removing := remove1 d (removing s)\<rparr>
             else emit (ConsoleError d) (s\<lparr>removing := remove1 d (removing s)\<rparr>))"
  have o2: "orderInv s2"
    using assms(1) by (rule orderInv_frame) (simp_all add: s2_def markers_def emit_def)
  have f2: "closeFulfilled s2 = closeFulfilled s" "pid s2 = pid s"
    by (simp_all add: s2_def emit_def)
  have eq: "removeFolderDone f d ok s =
      (if removing s2 \<noteq> [] then s2 else if pid s2 = 0 then rejectLaunch s2
       else fulfillCleanup f s2)"
    by (simp add: removeFolderDone_def Let_def s2_def)
  show ?thesis
  proof (cases "pid s = 0")
    case True
    with o2 orderInv_rejectLaunch[OF o2] show ?thesis by (simp add: eq f2)
  next
    case False
    with assms(2) have "closeFulfilled s2" by (simp add: f2)
    from o2 orderInv_fulfillCleanup[OF o2 this, of f] orderInv_rejectLaunch[OF o2]
    show ?thesis by (simp add: eq)
  qed
qed

lemma orderInv_step:
  assumes "orderInv s" and "flagsInv s"
  shows "orderInv (step f s e)"
proof (cases e)
  case (ChildExit c sg)
  show ?thesis
  proof (cases "exitObserver s")
    case True
    with assms(2) have n: "\<not> closeFulfilled s" "\<not> cleanupFulfilled s"
      by (auto simp: flagsInv_def)
    have "orderInv (s\<lparr>exitObserver := False\<rparr>)"
      using assms(1) by (rule orderInv_frame) (simp_all add: markers_def)
    from orderInv_onProcessExit[OF this, of f c sg] n True show ?thesis
      unfolding ChildExit by simp
  next
    case False
    with assms(1) show ?thesis unfolding ChildExit by simp
  qed
next
  case (ChildError m)
  have "orderInv (s\<lparr>errorObserver := False, failed := Some m\<rparr>)"
    using assms(1) by (rule orderInv_frame) (simp_all add: markers_def)
  with assms(1) show ?thesis unfolding ChildError by (simp add: orderInv_rejectLaunch)
next
  case ChildEnds
  from assms(1) show ?thesis unfolding ChildEnds by simp
next
  case ChildKillSent
  have "orderInv (s\<lparr>killed := True\<rparr>)"
    using assms(1) by (rule orderInv_frame) (simp_all add: markers_def)
  then show ?thesis unfolding ChildKillSent by simp
next
  case (StdoutLine d)
  have "orderInv (emit (Log browserStdOutLog (Data d)) s)"
    using assms(1) by (rule orderInv_frame) (simp_all add: markers_def emit_def)
  with assms(1) show ?thesis unfolding StdoutLine by simp
next
  case (StderrLine d)
  have "orderInv (emit (Log browserStdErrLog (Data d)) s)"
    using assms(1) by (rule orderInv_frame) (simp_all add: markers_def emit_def)
  with assms(1) show ?thesis unfolding StderrLine by simp
next
  case (Host h)
  from assms(1) show ?thesis unfolding Host
    by (cases h) (simp_all add: orderInv_gracefullyClose orderInv_hostExit)
next
  case CallGracefullyClose
  from assms(1) show ?thesis unfolding CallGracefullyClose
    by (simp add: orderInv_gracefullyClose)
next
  case CallKill
  from assms(1) show ?thesis unfolding CallKill by (simp add: orderInv_killAndWait)
next
  case AttemptResolved
  show ?thesis
  proof (cases "attempting s")
    case None
    with assms(1) show ?thesis unfolding AttemptResolved by simp
  next
    case (Some i)
    from attempting_Some[OF Some] have "i < length (invocations s)" by simp
    from orderInv_attemptSettled[OF assms(1) this] Some show ?thesis
      unfolding AttemptResolved by simp
  qed
next
  case AttemptRejected
  show ?thesis
  proof (cases "attempting s")
    case None
    with assms(1) show ?thesis unfolding AttemptRejected by simp
  next
    case (Some i)
    from attempting_Some[OF Some] have "i < length (invocations s)" by simp
    from orderInv_attemptSettled[OF assms(1) this] Some show ?thesis
      unfolding AttemptRejected by simp
  qed
next
  case (RemoveFolderFinished d ok)
  show ?thesis
  proof (cases "d \<in> set (removing s)")
    case True
    with assms(2) have "closeFulfilled s" by (auto simp: flagsInv_def)
    then have "closeFulfilled s \<or> pid s = 0" by simp
    from orderInv_removeFolderDone[OF assms(1) this] True show ?thesis
      unfolding RemoveFolderFinished by simp
  next
    case False
    with assms(1) show ?thesis unfolding RemoveFolderFinished by simp
  qed
qed

lemma orderInv_launch: "orderInv (launchProcess w options p)"
  by (simp add: orderInv_def markers_def launchProcess_def blank_def emit_def
      addEventListener_def Let_def cleanup_eq rejectLaunch_def marker_map_async
      split: option.splits)

lemma orderInv_run:
  assumes "orderInv s" and "flagsInv s"
  shows "orderInv (run s evs)"
  using assms
proof (induction evs arbitrary: s)
  case Nil
  then show ?case by simp
next
  case (Cons a evs)
  obtain f e where a: "a = (f, e)" by (cases a)
  from Cons.prems have "orderInv (step f s e)" by (rule orderInv_step)
  moreover from Cons.prems(2) have "flagsInv (step f s e)" by (rule flagsInv_step)
  ultimately have "orderInv (run (step f s e) evs)" by (rule Cons.IH)
  then show ?case by (simp add: a)
qed

lemma orderInv_reachable: "p \<noteq> 0 \<Longrightarrow> orderInv (run (launchProcess w options p) evs)"
  by (simp add: orderInv_run orderInv_launch flagsInv_launch)

subsection \<open>Facts about every reachable state\<close>

lemma rejectLaunch_consts:
  "opts (rejectLaunch s) = opts s \<and> win32 (rejectLaunch s) = win32 s \<and> pid (rejectLaunch s) = pid s"
  by (simp add: rejectLaunch_def emit_def split: option.splits)

lemma consts_step:
  "opts (step f s e) = opts s \<and> win32 (step f s e) = win32 s \<and> pid (step f s e) = pid s"
proof (cases e)
  case (Host h)
  show ?thesis unfolding Host
    by (cases h) (simp_all add: hostExit_eq gracefullyClose_eq Let_def)
next
  case AttemptResolved
  show ?thesis unfolding AttemptResolved
    by (cases "attempting s") (simp_all add: attemptSettled_eq Let_def setPc_def)
next
  case AttemptRejected
  show ?thesis unfolding AttemptRejected
    by (cases "attempting s") (simp_all add: attemptSettled_eq Let_def setPc_def)
next
  case (RemoveFolderFinished d ok)
  show ?thesis unfolding RemoveFolderFinished
    by (simp add: removeFolderDone_def Let_def emit_def fulfillCleanup_fields rejectLaunch_consts)
qed (simp_all add: onProcessExit_fields rejectLaunch_consts emit_def gracefullyClose_eq
      killAndWait_eq Let_def)

lemma consts_run:
  "opts (run s evs) = opts s \<and> win32 (run s evs) = win32 s \<and> pid (run s evs) = pid s"
proof (induction evs arbitrary: s)
  case Nil
  show ?case by simp
next
  case (Cons a evs)
  obtain f e where a: "a = (f, e)" by (cases a)
  show ?case using Cons.IH[of "step f s e"] by (simp add: a consts_step)
qed

lemma consts_launch:
  "opts (launchProcess w options p) = options \<and> win32 (launchProcess w options p) = w \<and>
   pid (launchProcess w options p) = p"
  by (simp add: launchProcess_def blank_def emit_def addEventListener_def Let_def cleanup_eq
      rejectLaunch_consts)

lemma consts_reachable:
  "opts (run (launchProcess w options p) evs) = options \<and>
   win32 (run (launchProcess w options p) evs) = w \<and>
   pid (run (launchProcess w options p) evs) = p"
  by (simp add: consts_run consts_launch)






text \<open>What the invariants say about one caller's invocations.\<close>

lemma precedes_never:
  "precedes P Q t \<Longrightarrow> \<forall>x \<in> set t. \<not> P x \<Longrightarrow> \<forall>x \<in> set t. \<not> Q x"
  by (induction t) (auto split: if_splits)

lemma waiting_unresolved:
  assumes "orderInv s"
  shows "(\<not> closeFulfilled s \<longrightarrow> Resolve ReentrantClose i \<notin> set (trace s)) \<and>
         (\<not> cleanupFulfilled s \<longrightarrow>
            Resolve FirstClose i \<notin> set (trace s) \<and> Resolve KillAndWait i \<notin> set (trace s))"
proof (intro conjI impI)
  assume "\<not> closeFulfilled s"
  with assms have "\<forall>x \<in> set (markers s). \<not> x = FulfillClose" by (auto simp: orderInv_def)
  moreover from assms
  have "precedes (\<lambda>e. e = FulfillClose) (isResolve ReentrantClose) (markers s)"
    by (simp add: orderInv_def)
  ultimately have "\<forall>x \<in> set (markers s). \<not> isResolve ReentrantClose x"
    using precedes_never by blast
  then show "Resolve ReentrantClose i \<notin> set (trace s)" by (auto simp: markers_def)
next
  assume "\<not> cleanupFulfilled s"
  with assms have "\<forall>x \<in> set (markers s). \<not> x = FulfillCleanup" by (auto simp: orderInv_def)
  moreover from assms
  have "precedes (\<lambda>e. e = FulfillCleanup) (isResolve FirstClose) (markers s)"
    by (simp add: orderInv_def)
  ultimately have "\<forall>x \<in> set (markers s). \<not> isResolve FirstClose x"
    using precedes_never by blast
  then show "Resolve FirstClose i \<notin> set (trace s)" by (auto simp: markers_def)
next
  assume "\<not> cleanupFulfilled s"
  with assms have "\<forall>x \<in> set (markers s). \<not> x = FulfillCleanup" by (auto simp: orderInv_def)
  moreover from assms
  have "precedes (\<lambda>e. e = FulfillCleanup) (isResolve KillAndWait) (markers s)"
    by (simp add: orderInv_def)
  ultimately have "\<forall>x \<in> set (markers s). \<not> isResolve KillAndWait x"
    using precedes_never by blast
  then show "Resolve KillAndWait i \<notin> set (trace s)" by (auto simp: markers_def)
qed

subsection \<open>The output readers\<close>

lemma rejectLaunch_readers:
  "stdoutReader (rejectLaunch s) = stdoutReader s \<and> stderrReader (rejectLaunch s) = stderrReader s"
  by (simp add: rejectLaunch_def emit_def split: option.splits)

lemma readers_gracefullyClose:
  "stdoutReader (gracefullyClose f ex s) = stdoutReader s \<and>
   stderrReader (gracefullyClose f ex s) = stderrReader s"
  by (simp add: gracefullyClose_eq Let_def)

lemma readers_killAndWait:
  "stdoutReader (killAndWait f s) = stdoutReader s \<and>
   stderrReader (killAndWait f s) = stderrReader s"
  by (simp add: killAndWait_eq Let_def)

lemma readers_attemptSettled:
  "stdoutReader (attemptSettled f ok i s) = stdoutReader s \<and>
   stderrReader (attemptSettled f ok i s) = stderrReader s"
  by (simp add: attemptSettled_eq Let_def setPc_def)

lemma readers_hostExit:
  "stdoutReader (hostExit f s) = stdoutReader s \<and> stderrReader (hostExit f s) = stderrReader s"
  by (simp add: hostExit_eq)

lemma readers_removeFolderDone:
  "stdoutReader (removeFolderDone f d ok s) = stdoutReader s \<and>
   stderrReader (removeFolderDone f d ok s) = stderrReader s"
  by (simp add: removeFolderDone_def Let_def emit_def fulfillCleanup_fields rejectLaunch_readers)

lemma readers_step:
  "stdoutReader (step f s e) = stdoutReader s \<and> stderrReader (step f s e) = stderrReader s"
proof (cases e)
  case (Host h)
  show ?thesis unfolding Host
    by (cases h) (simp_all add: readers_hostExit readers_gracefullyClose)
next
  case AttemptResolved
  show ?thesis unfolding AttemptResolved
    by (cases "attempting s") (simp_all add: readers_attemptSettled)
next
  case AttemptRejected
  show ?thesis unfolding AttemptRejected
    by (cases "attempting s") (simp_all add: readers_attemptSettled)
qed (simp_all add: onProcessExit_fields rejectLaunch_readers emit_def readers_gracefullyClose
      readers_killAndWait readers_removeFolderDone)

lemma readers_run:
  "stdoutReader (run s evs) = stdoutReader s \<and> stderrReader (run s evs) = stderrReader s"
proof (induction evs arbitrary: s)
  case Nil
  show ?case by simp
next
  case (Cons a evs)
  obtain f e where a: "a = (f, e)" by (cases a)
  show ?case using Cons.IH[of "step f s e"] by (simp add: a readers_step)
qed

lemma launch_readers:
  "stdoutReader (launchProcess w options p) = (p \<noteq> 0) \<and>
   stderrReader (launchProcess w options p) = (p \<noteq> 0) \<and>
   (ReadLines Stdout \<in> set (trace (launchProcess w options p))) = (p \<noteq> 0) \<and>
   (ReadLines Stderr \<in> set (trace (launchProcess w options p))) = (p \<noteq> 0)"
  by (simp add: launchProcess_def blank_def emit_def addEventListener_def Let_def cleanup_eq
      rejectLaunch_def image_iff)

lemma launch_spawn:
  "Spawn (executablePath options) (args options) (\<not> w)
     ([Ignore, Pipe, Pipe] @ (if pipe options then [Pipe, Pipe] else []))
   \<in> set (trace (launchProcess w options p))"
  by (simp add: launchProcess_def blank_def emit_def addEventListener_def Let_def cleanup_eq
      rejectLaunch_def stdioOf_def)

text \<open>
  Claim C9, as stated, fails: with \<open>pipe\<close> false and a child that was spawned, both readers
  are attached all the same.
\<close>

theorem readers_attached_without_pipe:
  "\<not> pipe plainOptions \<and>
   stdoutReader (launchProcess False plainOptions 4242) \<and>
   stderrReader (launchProcess False plainOptions 4242) \<and>
   ReadLines Stdout \<in> set (trace (launchProcess False plainOptions 4242)) \<and>
   ReadLines Stderr \<in> set (trace (launchProcess False plainOptions 4242)) \<and>
   trace (step noFaults (launchProcess False plainOptions 4242) (StdoutLine ''hello'')) =
     trace (launchProcess False plainOptions 4242) @ [Log browserStdOutLog (Data ''hello'')]"
  by (simp add: launch_readers plainOptions_def emit_def)

text \<open>
  Claim C9, amended. The readers are attached exactly when \<^verbatim>\<open>spawn\<close> gave the child a
  process id, whatever \<open>pipe\<close> says, and stay attached; each line of standard output goes
  to the logger under \<^verbatim>\<open>browser:out\<close> and each line of standard error under
  \<^verbatim>\<open>browser:err\<close> with severity \<^verbatim>\<open>warning\<close>. The option \<open>pipe\<close> only adds two more piped
  descriptors to the three the child always gets.
\<close>

theorem readers_attached_iff_spawned:
  "stdoutReader (run (launchProcess w options p) evs) = (p \<noteq> 0) \<and>
   stderrReader (run (launchProcess w options p) evs) = (p \<noteq> 0) \<and>
   (ReadLines Stdout \<in> set (trace (launchProcess w options p))) = (p \<noteq> 0) \<and>
   (ReadLines Stderr \<in> set (trace (launchProcess w options p))) = (p \<noteq> 0) \<and>
   step f (run (launchProcess w options p) evs) (StdoutLine d) =
     (if p \<noteq> 0 then emit (Log browserStdOutLog (Data d)) (run (launchProcess w options p) evs)
      else run (launchProcess w options p) evs) \<and>
   step f (run (launchProcess w options p) evs) (StderrLine d) =
     (if p \<noteq> 0 then emit (Log browserStdErrLog (Data d)) (run (launchProcess w options p) evs)
      else run (launchProcess w options p) evs) \<and>
   name browserStdOutLog = ''browser:out'' \<and> name browserStdErrLog = ''browser:err'' \<and>
   severity browserStdErrLog = Some ''warning'' \<and>
   Spawn (executablePath options) (args options) (\<not> w)
     ([Ignore, Pipe, Pipe] @ (if pipe options then [Pipe, Pipe] else []))
     \<in> set (trace (launchProcess w options p))"
  using launch_spawn[of options w p]
  by (simp add: readers_run launch_readers browserStdOutLog_def browserStdErrLog_def)

theorem readers_attached_iff_spawned_witness:
  "stdoutReader (run (launchProcess False (plainOptions\<lparr>pipe := True\<rparr>) 4242)
      [(noFaults, StdoutLine ''a''), (noFaults, ChildExit (Some 0) None)]) = ((4242::nat) \<noteq> 0) \<and>
   stderrReader (run (launchProcess False (plainOptions\<lparr>pipe := True\<rparr>) 4242)
      [(noFaults, StdoutLine ''a''), (noFaults, ChildExit (Some 0) None)]) = ((4242::nat) \<noteq> 0)"
  using readers_attached_iff_spawned[of False "plainOptions\<lparr>pipe := True\<rparr>" 4242
      "[(noFaults, StdoutLine ''a''), (noFaults, ChildExit (Some 0) None)]"]
  by blast

subsection \<open>The promises and the signals; what kill sends\<close>

lemma invocation_status:
  assumes "waitInv s" and "orderInv s" and "i < length (invocations s)"
  shows "(caller (invocations s ! i) = ReentrantClose \<longrightarrow>
            tiedTo (closeFulfilled s) AwaitClose ReentrantClose s i) \<and>
         (caller (invocations s ! i) = KillAndWait \<longrightarrow>
            tiedTo (cleanupFulfilled s) KillWaiting KillAndWait s i) \<and>
         (caller (invocations s ! i) = FirstClose \<longrightarrow>
            pc (invocations s ! i) = AwaitAttempt \<or>
            tiedTo (cleanupFulfilled s) AwaitCleanup FirstClose s i)"
proof -
  from assms(1,3) have ok: "invocationOk (\<lambda>p. False) s i" by (simp add: waitInv_def)
  note un = waiting_unresolved[OF assms(2), of i]
  show ?thesis
  proof (cases "pc (invocations s ! i)")
    case AwaitAttempt
    with ok show ?thesis by (simp add: invocationOk_def)
  next
    case AwaitCleanup
    with ok un show ?thesis by (simp add: invocationOk_def tiedTo_def)
  next
    case AwaitClose
    with ok un show ?thesis by (simp add: invocationOk_def tiedTo_def)
  next
    case KillWaiting
    with ok un show ?thesis by (simp add: invocationOk_def tiedTo_def)
  next
    case Settled
    with ok show ?thesis by (auto simp: invocationOk_def tiedTo_def split: if_splits)
  qed
qed





lemma launch_flags:
  "exitObserver (launchProcess w options p) = (p \<noteq> 0) \<and>
   \<not> processClosed (launchProcess w options p) \<and>
   \<not> gracefullyClosing (launchProcess w options p) \<and>
   \<not> killed (launchProcess w options p) \<and>
   invocations (launchProcess w options p) = [] \<and>
   (p \<noteq> 0 \<longrightarrow> removing (launchProcess w options p) = [])"
  by (simp add: launchProcess_def blank_def emit_def addEventListener_def Let_def cleanup_eq
      rejectLaunch_def split: option.splits)

lemma exitedClean_flags:
  "processClosed (run (launchProcess False plainOptions 4242) exitedClean) \<and>
   cleanupFulfilled (run (launchProcess False plainOptions 4242) exitedClean)"
  by (simp add: exitedClean_def launch_flags onProcessExit_fields removeFolderDone_fields
      consts_launch plainOptions_def)

subsection \<open>When the caller's operation settles\<close>





subsection \<open>A reentrant graceful close\<close>

lemma filter_isAttempt_rare: "filter isAttempt (filter rare t) = filter isAttempt t"
  by (induction t) (auto simp: rare_def isAttempt_def)

lemma isAttempt_rareEffects:
  "filter isAttempt (rareEffects s e) =
     (if closes s e \<and> \<not> gracefullyClosing s then [AttemptToGracefullyClose] else [])"
  by (cases e) (simp_all add: rareEffects_def isAttempt_def)

lemma isAttempt_step:
  "filter isAttempt (trace (step f s e)) =
     filter isAttempt (trace s) @
     (if closes s e \<and> \<not> gracefullyClosing s then [AttemptToGracefullyClose] else [])"
proof -
  have "filter isAttempt (trace (step f s e)) = filter isAttempt (filter rare (trace (step f s e)))"
    by (simp only: filter_isAttempt_rare)
  also have "\<dots> = filter isAttempt (filter rare (trace s)) @ filter isAttempt (rareEffects s e)"
    by (simp only: rare_step filter_append)
  finally show ?thesis by (simp only: filter_isAttempt_rare isAttempt_rareEffects)
qed

lemma rejectLaunch_gracefullyClosing: "gracefullyClosing (rejectLaunch s) = gracefullyClosing s"
  by (simp add: rejectLaunch_def emit_def split: option.splits)

lemma gracefullyClosing_step:
  "gracefullyClosing (step f s e) = (gracefullyClosing s \<or> closes s e)"
proof (cases e)
  case (Host h)
  show ?thesis unfolding Host
    by (cases h) (simp_all add: hostExit_eq gracefullyClose_eq Let_def)
next
  case AttemptResolved
  show ?thesis unfolding AttemptResolved
    by (cases "attempting s") (simp_all add: attemptSettled_eq Let_def setPc_def)
next
  case AttemptRejected
  show ?thesis unfolding AttemptRejected
    by (cases "attempting s") (simp_all add: attemptSettled_eq Let_def setPc_def)
next
  case (RemoveFolderFinished d ok)
  show ?thesis unfolding RemoveFolderFinished
    by (simp add: removeFolderDone_def Let_def emit_def fulfillCleanup_fields
        rejectLaunch_gracefullyClosing)
qed (simp_all add: onProcessExit_fields rejectLaunch_gracefullyClosing emit_def
      gracefullyClose_eq killAndWait_eq Let_def)

lemma attemptedOnce_step: "attemptedOnce s \<Longrightarrow> attemptedOnce (step f s e)"
  by (simp add: attemptedOnce_def isAttempt_step gracefullyClosing_step)

lemma attemptedOnce_run: "attemptedOnce s \<Longrightarrow> attemptedOnce (run s evs)"
proof (induction evs arbitrary: s)
  case Nil
  then show ?case by simp
next
  case (Cons a evs)
  obtain f e where a: "a = (f, e)" by (cases a)
  from Cons.prems have "attemptedOnce (step f s e)" by (rule attemptedOnce_step)
  from Cons.IH[OF this] show ?case by (simp add: a)
qed

lemma attemptedOnce_reachable: "attemptedOnce (run (launchProcess w options p) evs)"
proof -
  have "filter isAttempt (trace (launchProcess w options p)) =
        filter isAttempt (filter rare (trace (launchProcess w options p)))"
    by (simp only: filter_isAttempt_rare)
  then have "attemptedOnce (launchProcess w options p)"
    by (simp add: attemptedOnce_def rare_launch launch_flags)
  then show ?thesis by (rule attemptedOnce_run)
qed

lemma gracefullyClose_again_trace:
  assumes "gracefullyClosing s"
  shows "trace (gracefullyClose f ex s) =
     trace (snd (killProcess f (emit (Log browserLog ForcefullyClose) s))) @
     (if closeFulfilled s
      then Resolve ReentrantClose (length (invocations s)) #
           (if ex then [HostProcessExit 130] else [])
      else [])"
  using assms
  by (simp add: gracefullyClose_eq Let_def killProcess_snd emit_def continue_trace
      continueEffects_def exitEffects_def killEffects_fields)

lemma gracefullyClose_again_invocations:
  assumes "gracefullyClosing s"
  shows "length (invocations (gracefullyClose f ex s)) = Suc (length (invocations s)) \<and>
   caller (invocations (gracefullyClose f ex s) ! length (invocations s)) = ReentrantClose"
  using assms by (simp add: gracefullyClose_eq Let_def continue_invocations)

text \<open>
  Claim C2. \<^verbatim>\<open>gracefullyClose\<close> is entered while \<^verbatim>\<open>gracefullyClosing\<close> is set, by the caller
  or by a signal handler (\<open>ex\<close> tells which). The call logs, runs \<^verbatim>\<open>killProcess\<close> at once and
  then only waits for \<^verbatim>\<open>waitForClose\<close>; the caller's operation is not called again: its one
  call is still the only one. The promise of this and of every other reentrant call is
  tied to the closed signal: pending before it fires, resolved after.
\<close>

theorem reentrant_close_escalates:
  assumes "p \<noteq> 0" and "s = run (launchProcess w options p) evs"
    and "gracefullyClosing s"
  shows "step f s CallGracefullyClose = gracefullyClose f False s \<and>
         trace (gracefullyClose f ex s) =
           trace (snd (killProcess f (emit (Log browserLog ForcefullyClose) s))) @
           (if closeFulfilled s
            then Resolve ReentrantClose (length (invocations s)) #
                 (if ex then [HostProcessExit 130] else [])
            else []) \<and>
         filter isAttempt (trace s) = [AttemptToGracefullyClose] \<and>
         filter isAttempt (trace (gracefullyClose f ex s)) = [AttemptToGracefullyClose] \<and>
         length (invocations (gracefullyClose f ex s)) = Suc (length (invocations s)) \<and>
         caller (invocations (gracefullyClose f ex s) ! length (invocations s)) =
           ReentrantClose \<and>
         (\<forall>j < length (invocations (gracefullyClose f ex s)).
            caller (invocations (gracefullyClose f ex s) ! j) = ReentrantClose \<longrightarrow>
            tiedTo (closeFulfilled (gracefullyClose f ex s)) AwaitClose ReentrantClose
              (gracefullyClose f ex s) j)"
proof -
  from assms(1,2) have st: "step f s CallGracefullyClose = gracefullyClose f False s"
    by (simp add: consts_reachable)
  have a: "attemptedOnce s" unfolding assms(2) by (rule attemptedOnce_reachable)
  with assms(3) have a1: "filter isAttempt (trace s) = [AttemptToGracefullyClose]"
    by (simp add: attemptedOnce_def)
  have "filter isAttempt (trace (gracefullyClose f ex s)) =
        filter isAttempt (filter rare (trace (gracefullyClose f ex s)))"
    by (simp only: filter_isAttempt_rare)
  also have "\<dots> = filter isAttempt (filter rare (trace s) @ [])"
    using assms(3) by (simp only: rare_gracefullyClose if_True)
  also have "\<dots> = filter isAttempt (trace s)"
    by (simp only: append_Nil2 filter_isAttempt_rare)
  finally have a2:
    "filter isAttempt (trace (gracefullyClose f ex s)) = [AttemptToGracefullyClose]"
    using a1 by simp
  have w: "waitInv (gracefullyClose f ex s)"
    unfolding assms(2) by (rule waitInv_gracefullyClose[OF waitInv_reachable])
  have o: "orderInv (gracefullyClose f ex s)"
    unfolding assms(2) by (rule orderInv_gracefullyClose[OF orderInv_reachable[OF assms(1)]])
  have tied: "\<forall>j < length (invocations (gracefullyClose f ex s)).
            caller (invocations (gracefullyClose f ex s) ! j) = ReentrantClose \<longrightarrow>
            tiedTo (closeFulfilled (gracefullyClose f ex s)) AwaitClose ReentrantClose
              (gracefullyClose f ex s) j"
    using invocation_status[OF w o] by blast
  from st a1 a2 tied gracefullyClose_again_trace[OF assms(3), of f ex]
    gracefullyClose_again_invocations[OF assms(3), of f ex]
  show ?thesis by blast
qed

lemma closing_flag: "gracefullyClosing (run (launchProcess False plainOptions 4242) closing)"
  by (simp add: closing_def consts_launch gracefullyClose_eq launch_flags)

theorem reentrant_close_escalates_witness:
  "(4242::nat) \<noteq> 0 \<and>
   gracefullyClosing (run (launchProcess False plainOptions 4242) closing) \<and>
   step noFaults (run (launchProcess False plainOptions 4242) closing) CallGracefullyClose =
     gracefullyClose noFaults False (run (launchProcess False plainOptions 4242) closing) \<and>
   filter isAttempt
     (trace (gracefullyClose noFaults False (run (launchProcess False plainOptions 4242) closing))) =
     [AttemptToGracefullyClose] \<and>
   caller (invocations
       (gracefullyClose noFaults False (run (launchProcess False plainOptions 4242) closing)) !
     length (invocations (run (launchProcess False plainOptions 4242) closing))) = ReentrantClose"
proof -
  have h: "(4242::nat) \<noteq> 0" by simp
  note t = reentrant_close_escalates[OF h refl closing_flag, where f=noFaults and ex=False]
  from t h closing_flag show ?thesis by blast
qed

subsection \<open>When the promises of gracefullyClose resolve\<close>

lemmas model_defs =
  launchProcess_def blank_def emit_def addEventListener_def removeEventListeners_def
  cleanup_eq rejectLaunch_def stdioOf_def gracefullyClose_eq killAndWait_eq attemptSettled_eq
  onProcessExit_def fulfillClose_def fulfillCleanup_def resume_def continue_def resolve_def
  setPc_def hostExit_eq killEffects_def alive_def removeFolderDone_def attempting_def
  awaitsClose_def awaitsCleanup_def noFaults_def plainOptions_def Let_def

text \<open>
  Claim C1, as stated, fails for the reentrant call. \<^verbatim>\<open>gracefullyClose\<close> is called twice and
  then the child exits: the promise of the second call is resolved while the removal of
  the temporary directory started by the exit handler is still in flight and
  \<^verbatim>\<open>fulfillCleanup\<close> has not been called.
\<close>

theorem reentrant_close_resolves_before_cleanup:
  "caller (invocations (run (launchProcess False plainOptions 4242) closedTwice) ! 1) =
     ReentrantClose \<and>
   Resolve ReentrantClose 1 \<in> set (trace (run (launchProcess False plainOptions 4242) closedTwice)) \<and>
   RemoveFolderAsync ''/tmp/profile''
     \<in> set (trace (run (launchProcess False plainOptions 4242) closedTwice)) \<and>
   removing (run (launchProcess False plainOptions 4242) closedTwice) = [''/tmp/profile''] \<and>
   \<not> cleanupFulfilled (run (launchProcess False plainOptions 4242) closedTwice) \<and>
   FulfillCleanup \<notin> set (trace (run (launchProcess False plainOptions 4242) closedTwice))"
  by (simp add: closedTwice_def model_defs)

lemma precedes_markers:
  assumes "\<And>e. P e \<or> Q e \<Longrightarrow> marker e"
  shows "precedes P Q (markers s) = precedes P Q (trace s)"
  unfolding markers_def using assms by (rule precedes_filter)

lemma marker_isOnExit: "isOnExit e \<Longrightarrow> marker e"
  by (cases e) simp_all

lemma marker_isResolve: "isResolve c e \<Longrightarrow> marker e"
  by (cases e) simp_all

text \<open>
  Claim C1, amended. In every run of a launched process: the promise of a first
  \<^verbatim>\<open>gracefullyClose\<close> is resolved only after \<^verbatim>\<open>onExit\<close> has been called and \<^verbatim>\<open>fulfillCleanup\<close>
  has run; the promise of a reentrant \<^verbatim>\<open>gracefullyClose\<close> is resolved only after \<^verbatim>\<open>onExit\<close>
  has been called and \<^verbatim>\<open>fulfillClose\<close> has run, and the cleanup may still be in progress
  then. \<^verbatim>\<open>fulfillClose\<close> runs only after \<^verbatim>\<open>onExit\<close>, \<^verbatim>\<open>fulfillCleanup\<close> only after
  \<^verbatim>\<open>fulfillClose\<close>, and once \<^verbatim>\<open>fulfillCleanup\<close> has run the exit has been observed and no
  removal started by the exit handler is in flight.
\<close>

theorem close_resolves_after_its_signal:
  assumes "p \<noteq> 0" and "s = run (launchProcess w options p) evs"
  shows "precedes isOnExit (isResolve FirstClose) (trace s) \<and>
         precedes (\<lambda>e. e = FulfillCleanup) (isResolve FirstClose) (trace s) \<and>
         precedes isOnExit (isResolve ReentrantClose) (trace s) \<and>
         precedes (\<lambda>e. e = FulfillClose) (isResolve ReentrantClose) (trace s) \<and>
         precedes isOnExit (\<lambda>e. e = FulfillClose) (trace s) \<and>
         precedes (\<lambda>e. e = FulfillClose) (\<lambda>e. e = FulfillCleanup) (trace s) \<and>
         (FulfillClose \<in> set (trace s)) = processClosed s \<and>
         (FulfillCleanup \<in> set (trace s)) = cleanupFulfilled s \<and>
         (cleanupFulfilled s \<longrightarrow> processClosed s \<and> removing s = [])"
proof -
  have o: "orderInv s" unfolding assms(2) using assms(1) by (rule orderInv_reachable)
  have fl: "flagsInv s" unfolding assms(2) using assms(1) by (rule flagsInv_reachable)
  have m: "FulfillClose \<in> set (markers s) \<longleftrightarrow> FulfillClose \<in> set (trace s)"
    "FulfillCleanup \<in> set (markers s) \<longleftrightarrow> FulfillCleanup \<in> set (trace s)"
    by (simp_all add: markers_def)
  have q1: "precedes isOnExit (\<lambda>e. e = FulfillClose) (markers s) =
            precedes isOnExit (\<lambda>e. e = FulfillClose) (trace s)"
    by (rule precedes_markers) (auto dest: marker_isOnExit)
  have q2: "precedes (\<lambda>e. e = FulfillClose) (\<lambda>e. e = FulfillCleanup) (markers s) =
            precedes (\<lambda>e. e = FulfillClose) (\<lambda>e. e = FulfillCleanup) (trace s)"
    by (rule precedes_markers) auto
  have q3: "precedes (\<lambda>e. e = FulfillCleanup) (isResolve FirstClose) (markers s) =
            precedes (\<lambda>e. e = FulfillCleanup) (isResolve FirstClose) (trace s)"
    by (rule precedes_markers) (auto dest: marker_isResolve)
  have q4: "precedes (\<lambda>e. e = FulfillClose) (isResolve ReentrantClose) (markers s) =
            precedes (\<lambda>e. e = FulfillClose) (isResolve ReentrantClose) (trace s)"
    by (rule precedes_markers) (auto dest: marker_isResolve)
  from o q1 have p1: "precedes isOnExit (\<lambda>e. e = FulfillClose) (trace s)"
    by (simp add: orderInv_def)
  from o q2 have p2: "precedes (\<lambda>e. e = FulfillClose) (\<lambda>e. e = FulfillCleanup) (trace s)"
    by (simp add: orderInv_def)
  from o q3 have p3: "precedes (\<lambda>e. e = FulfillCleanup) (isResolve FirstClose) (trace s)"
    by (simp add: orderInv_def)
  from o q4 have p4: "precedes (\<lambda>e. e = FulfillClose) (isResolve ReentrantClose) (trace s)"
    by (simp add: orderInv_def)
  from p1 p4 have p5: "precedes isOnExit (isResolve ReentrantClose) (trace s)"
    by (rule precedes_trans)
  from p1 p2 have "precedes isOnExit (\<lambda>e. e = FulfillCleanup) (trace s)"
    by (rule precedes_trans)
  from this p3 have p6: "precedes isOnExit (isResolve FirstClose) (trace s)"
    by (rule precedes_trans)
  from o m fl have f1: "(FulfillClose \<in> set (trace s)) = processClosed s"
    and f2: "(FulfillCleanup \<in> set (trace s)) = cleanupFulfilled s"
    by (simp_all add: orderInv_def flagsInv_def)
  from fl have f3: "cleanupFulfilled s \<longrightarrow> processClosed s \<and> removing s = []"
    by (auto simp: flagsInv_def)
  from p1 p2 p3 p4 p5 p6 f1 f2 f3 show ?thesis by blast
qed

lemma closedGracefully_resolved:
  "Resolve FirstClose 0 \<in> set (trace (run (launchProcess False plainOptions 4242) closedGracefully))"
  by (simp add: closedGracefully_def model_defs)

theorem close_resolves_after_its_signal_witness:
  "(4242::nat) \<noteq> 0 \<and>
   Resolve FirstClose 0
     \<in> set (trace (run (launchProcess False plainOptions 4242) closedGracefully)) \<and>
   precedes isOnExit (isResolve FirstClose)
     (trace (run (launchProcess False plainOptions 4242) closedGracefully)) \<and>
   precedes (\<lambda>e. e = FulfillCleanup) (isResolve FirstClose)
     (trace (run (launchProcess False plainOptions 4242) closedGracefully))"
proof -
  have h: "(4242::nat) \<noteq> 0" by simp
  note t = close_resolves_after_its_signal[OF h refl, where w=False and options=plainOptions
      and evs=closedGracefully]
  from t h closedGracefully_resolved show ?thesis by blast
qed

subsection \<open>The closures behind the invocations\<close>


















subsection \<open>The exit of the child\<close>

lemma foldl_track_removeAttempts: "foldl track (reg, ok) (removeAttempts f dirs) = (reg, ok)"
  by (induction dirs) simp_all

lemma foldl_track_killEffects:
  "foldl track (reg, ok) (killEffects f s) = (filter (\<lambda>l. l \<notin> set (listeners s)) reg, ok)"
  by (simp add: killEffects_def foldl_track_removeAttempts)

lemma foldl_track_async: "foldl track (reg, ok) (map RemoveFolderAsync dirs) = (reg, ok)"
  by (induction dirs) simp_all

lemma continue_listeners:
  "listeners (continue f i s) =
     (if resumable (pc (invocations s ! i)) \<and> thenExit (invocations s ! i) \<and>
         (HostExit, KillProcessHandler) \<in> set (listeners s)
      then [] else listeners s)"
  by (simp add: continue_def resolve_def setPc_def emit_def hostExit_eq Let_def resumable_def
      split: pc.splits)

lemma filter_not_self: "filter (\<lambda>l. l \<notin> set ls) ls = []"
  by (simp add: filter_empty_conv)

lemma listenInv_continue:
  assumes "listenInv s"
  shows "listenInv (continue f i s)"
  using assms
  by (simp add: listenInv_def continue_trace continue_listeners continueEffects_def
      exitEffects_def resumable_def foldl_track_killEffects filter_not_self split: pc.splits)

lemma listenInv_resume: "listenInv s \<Longrightarrow> listenInv (resume f w s)"
  unfolding resume_def
  by (rule resumeUpTo_induct[where P=listenInv]) (simp_all add: listenInv_continue)

lemma listenInv_fulfillCleanup: "listenInv s \<Longrightarrow> listenInv (fulfillCleanup f s)"
  unfolding fulfillCleanup_def Let_def
  by (intro listenInv_resume) (simp add: listenInv_def emit_def)

lemma listenInv_onProcessExit: "listenInv s \<Longrightarrow> listenInv (onProcessExit f c sg s)"
proof -
  assume a: "listenInv s"
  let ?s6 = "cleanup (fulfillClose (emit (OnExit c sg) (removeEventListeners
      ((emit (Log browserLog (ProcessDidExit c sg)) s)\<lparr>processClosed := True\<rparr>))))"
  from a have "listenInv ?s6"
    by (simp add: listenInv_def emit_def cleanup_eq fulfillClose_def removeEventListeners_def
        foldl_track_async filter_not_self)
  then have l7: "listenInv (resume f awaitsClose ?s6)" by (rule listenInv_resume)
  from l7 listenInv_fulfillCleanup[OF l7, of f] show ?thesis
    by (simp add: onProcessExit_def Let_def)
qed

lemma listenInv_gracefullyClose: "listenInv s \<Longrightarrow> listenInv (gracefullyClose f ex s)"
proof -
  assume a: "listenInv s"
  let ?s3 = "s\<lparr>listeners := [],
                trace := trace s @ Log browserLog ForcefullyClose # killEffects f s,
                invocations := invocations s @
                  [\<lparr> caller = ReentrantClose, pc = AwaitClose, thenExit = ex \<rparr>]\<rparr>"
  from a have l3: "listenInv ?s3"
    by (simp add: listenInv_def foldl_track_killEffects filter_not_self)
  from a l3 listenInv_continue[OF l3, of f "length (invocations s)"] show ?thesis
    by (simp add: gracefullyClose_eq Let_def) (simp add: listenInv_def)
qed

lemma listenInv_killAndWait: "listenInv s \<Longrightarrow> listenInv (killAndWait f s)"
proof -
  assume a: "listenInv s"
  let ?s2 = "s\<lparr>listeners := [], trace := trace s @ killEffects f s,
                invocations := invocations s @
                  [\<lparr> caller = KillAndWait, pc = KillWaiting, thenExit = False \<rparr>]\<rparr>"
  from a have l2: "listenInv ?s2"
    by (simp add: listenInv_def foldl_track_killEffects filter_not_self)
  from l2 listenInv_continue[OF l2, of f "length (invocations s)"] show ?thesis
    by (simp add: killAndWait_eq Let_def)
qed

lemma listenInv_attemptSettled: "listenInv s \<Longrightarrow> listenInv (attemptSettled f ok i s)"
proof -
  assume a: "listenInv s"
  define s2 where "s2 = setPc i AwaitCleanup
      (if ok then s else s\<lparr>listeners := [], trace := trace s @ killEffects f s\<rparr>)"
  from a have l2: "listenInv s2"
    by (simp add: s2_def listenInv_def setPc_def foldl_track_killEffects filter_not_self)
  have eq: "attemptSettled f ok i s = (if cleanupFulfilled s then continue f i s2 else s2)"
    by (simp add: attemptSettled_eq Let_def s2_def)
  from l2 listenInv_continue[OF l2, of f i] show ?thesis by (simp add: eq)
qed

lemma listenInv_hostExit: "listenInv s \<Longrightarrow> listenInv (hostExit f s)"
  by (simp add: hostExit_eq listenInv_def foldl_track_killEffects filter_not_self)

lemma listenInv_rejectLaunch: "listenInv s \<Longrightarrow> listenInv (rejectLaunch s)"
  by (simp add: rejectLaunch_def listenInv_def emit_def split: option.splits)

lemma listenInv_removeFolderDone: "listenInv s \<Longrightarrow> listenInv (removeFolderDone f d ok s)"
proof -
  assume a: "listenInv s"
  define s2 where "s2 = (if ok then s\<lparr>removing := remove1 d (removing s)\<rparr>
             else emit (ConsoleError d) (s\<lparr>removing := remove1 d (removing s)\<rparr>))"
  from a have l2: "listenInv s2" by (simp add: s2_def listenInv_def emit_def)
  have eq: "removeFolderDone f d ok s =
      (if removing s2 \<noteq> [] then s2 else if pid s2 = 0 then rejectLaunch s2
       else fulfillCleanup f s2)"
    by (simp add: removeFolderDone_def Let_def s2_def)
  from l2 listenInv_rejectLaunch[OF l2] listenInv_fulfillCleanup[OF l2, of f]
  show ?thesis by (simp add: eq)
qed

lemma listenInv_step: "listenInv s \<Longrightarrow> listenInv (step f s e)"
proof (cases e)
  case (ChildExit c sg)
  assume a: "listenInv s"
  then have "listenInv (s\<lparr>exitObserver := False\<rparr>)" by (simp add: listenInv_def)
  from listenInv_onProcessExit[OF this, of f c sg] a show ?thesis unfolding ChildExit by simp
next
  case (ChildError m)
  assume a: "listenInv s"
  then have "listenInv (s\<lparr>errorObserver := False, failed := Some m\<rparr>)"
    by (simp add: listenInv_def)
  from listenInv_rejectLaunch[OF this] a show ?thesis unfolding ChildError by simp
next
  case (Host h)
  assume "listenInv s"
  then show ?thesis unfolding Host
    by (cases h) (simp_all add: listenInv_gracefullyClose listenInv_hostExit)
next
  case AttemptResolved
  assume "listenInv s"
  then show ?thesis unfolding AttemptResolved
    by (cases "attempting s") (simp_all add: listenInv_attemptSettled)
next
  case AttemptRejected
  assume "listenInv s"
  then show ?thesis unfolding AttemptRejected
    by (cases "attempting s") (simp_all add: listenInv_attemptSettled)
next
  case CallGracefullyClose
  assume "listenInv s"
  then show ?thesis unfolding CallGracefullyClose by (simp add: listenInv_gracefullyClose)
next
  case CallKill
  assume "listenInv s"
  then show ?thesis unfolding CallKill by (simp add: listenInv_killAndWait)
next
  case (RemoveFolderFinished d ok)
  assume "listenInv s"
  then show ?thesis unfolding RemoveFolderFinished by (simp add: listenInv_removeFolderDone)
qed (simp_all add: listenInv_def emit_def)

lemma listenInv_run: "listenInv s \<Longrightarrow> listenInv (run s evs)"
proof (induction evs arbitrary: s)
  case Nil
  then show ?case by simp
next
  case (Cons a evs)
  obtain f e where a: "a = (f, e)" by (cases a)
  from Cons.prems have "listenInv (step f s e)" by (rule listenInv_step)
  from Cons.IH[OF this] show ?case by (simp add: a)
qed

lemma listenInv_launch: "listenInv (launchProcess w options p)"
  by (simp add: listenInv_def launchProcess_def blank_def emit_def addEventListener_def Let_def
      cleanup_eq rejectLaunch_def foldl_track_async split: option.splits)

lemma listenInv_reachable: "listenInv (run (launchProcess w options p) evs)"
  by (simp add: listenInv_run listenInv_launch)

lemma filter_isOnExit_rare: "filter isOnExit (filter rare t) = filter isOnExit t"
  by (induction t) (auto simp: rare_def)

lemma isOnExit_rareEffects:
  "filter isOnExit (rareEffects s e) =
     (case e of ChildExit c sg \<Rightarrow> (if exitObserver s then [OnExit c sg] else []) | _ \<Rightarrow> [])"
  by (cases e) (simp_all add: rareEffects_def)

lemma isOnExit_step:
  "filter isOnExit (trace (step f s e)) =
     filter isOnExit (trace s) @
     (case e of ChildExit c sg \<Rightarrow> (if exitObserver s then [OnExit c sg] else []) | _ \<Rightarrow> [])"
proof -
  have "filter isOnExit (trace (step f s e)) = filter isOnExit (filter rare (trace (step f s e)))"
    by (simp only: filter_isOnExit_rare)
  also have "\<dots> = filter isOnExit (filter rare (trace s)) @ filter isOnExit (rareEffects s e)"
    by (simp only: rare_step filter_append)
  finally show ?thesis by (simp only: filter_isOnExit_rare isOnExit_rareEffects)
qed

lemma rejectLaunch_exitObserver: "exitObserver (rejectLaunch s) = exitObserver s"
  by (simp add: rejectLaunch_def emit_def split: option.splits)

lemma exitObserver_step:
  "exitObserver (step f s e) =
     (case e of ChildExit c sg \<Rightarrow> False | _ \<Rightarrow> exitObserver s)"
proof (cases e)
  case (Host h)
  show ?thesis unfolding Host
    by (cases h) (simp_all add: hostExit_eq gracefullyClose_eq Let_def)
next
  case AttemptResolved
  show ?thesis unfolding AttemptResolved
    by (cases "attempting s") (simp_all add: attemptSettled_eq Let_def setPc_def)
next
  case AttemptRejected
  show ?thesis unfolding AttemptRejected
    by (cases "attempting s") (simp_all add: attemptSettled_eq Let_def setPc_def)
next
  case (RemoveFolderFinished d ok)
  show ?thesis unfolding RemoveFolderFinished
    by (simp add: removeFolderDone_def Let_def emit_def fulfillCleanup_fields
        rejectLaunch_exitObserver)
qed (simp_all add: onProcessExit_fields rejectLaunch_exitObserver emit_def gracefullyClose_eq
      killAndWait_eq Let_def)

lemma isOnExit_run:
  "filter isOnExit (trace (run s evs)) =
     filter isOnExit (trace s) @
     (if exitObserver s
      then (case firstExit evs of None \<Rightarrow> [] | Some (c, sg) \<Rightarrow> [OnExit c sg]) else [])"
proof (induction evs arbitrary: s)
  case Nil
  show ?case by simp
next
  case (Cons a evs)
  obtain f e where a: "a = (f, e)" by (cases a)
  show ?case
  proof (cases e)
    case (ChildExit c sg)
    show ?thesis
      using Cons.IH[of "step f s e"]
      by (simp add: a isOnExit_step exitObserver_step ChildExit del: step.simps)
  next
    case (ChildError m)
    show ?thesis
      using Cons.IH[of "step f s e"]
      by (simp add: a isOnExit_step exitObserver_step ChildError del: step.simps)
  next
    case ChildEnds
    show ?thesis
      using Cons.IH[of "step f s e"]
      by (simp add: a isOnExit_step exitObserver_step ChildEnds del: step.simps)
  next
    case ChildKillSent
    show ?thesis
      using Cons.IH[of "step f s e"]
      by (simp add: a isOnExit_step exitObserver_step ChildKillSent del: step.simps)
  next
    case (StdoutLine d)
    show ?thesis
      using Cons.IH[of "step f s e"]
      by (simp add: a isOnExit_step exitObserver_step StdoutLine del: step.simps)
  next
    case (StderrLine d)
    show ?thesis
      using Cons.IH[of "step f s e"]
      by (simp add: a isOnExit_step exitObserver_step StderrLine del: step.simps)
  next
    case (Host h)
    show ?thesis
      using Cons.IH[of "step f s e"]
      by (simp add: a isOnExit_step exitObserver_step Host del: step.simps)
  next
    case CallGracefullyClose
    show ?thesis
      using Cons.IH[of "step f s e"]
      by (simp add: a isOnExit_step exitObserver_step CallGracefullyClose del: step.simps)
  next
    case CallKill
    show ?thesis
      using Cons.IH[of "step f s e"]
      by (simp add: a isOnExit_step exitObserver_step CallKill del: step.simps)
  next
    case AttemptResolved
    show ?thesis
      using Cons.IH[of "step f s e"]
      by (simp add: a isOnExit_step exitObserver_step AttemptResolved del: step.simps)
  next
    case AttemptRejected
    show ?thesis
      using Cons.IH[of "step f s e"]
      by (simp add: a isOnExit_step exitObserver_step AttemptRejected del: step.simps)
  next
    case (RemoveFolderFinished d ok)
    show ?thesis
      using Cons.IH[of "step f s e"]
      by (simp add: a isOnExit_step exitObserver_step RemoveFolderFinished del: step.simps)
  qed
qed

lemma exitObserver_run:
  "exitObserver (run s evs) = (exitObserver s \<and> firstExit evs = None)"
proof (induction evs arbitrary: s)
  case Nil
  show ?case by simp
next
  case (Cons a evs)
  obtain f e where a: "a = (f, e)" by (cases a)
  show ?case
    using Cons.IH[of "step f s e"]
    by (cases e) (simp_all add: a exitObserver_step del: step.simps)
qed

text \<open>
  Claim C3. In every run of a launched process, \<^verbatim>\<open>onExit\<close> is called once if the child's
  exit event occurs in the run and never otherwise, with the code and signal of the first
  such event (the handler is registered with \<^verbatim>\<open>once\<close>, so a later one finds none); and
  replaying the trace, every call of \<^verbatim>\<open>onExit\<close> finds no listener registered on the host
  process: they have all been removed before.
\<close>

theorem onExit_called_once_after_removal:
  assumes "p \<noteq> 0" and "s = run (launchProcess w options p) evs"
  shows "filter isOnExit (trace s) =
           (case firstExit evs of None \<Rightarrow> [] | Some (c, sg) \<Rightarrow> [OnExit c sg]) \<and>
         exitObserver s = (firstExit evs = None) \<and>
         exitAfterRemoval (trace s) \<and>
         registered (trace s) = listeners s \<and>
         (processClosed s \<longrightarrow> listeners s = [])"
proof -
  have "filter isOnExit (trace (launchProcess w options p)) =
        filter isOnExit (filter rare (trace (launchProcess w options p)))"
    by (simp only: filter_isOnExit_rare)
  then have l0: "filter isOnExit (trace (launchProcess w options p)) = []"
    by (simp add: rare_launch)
  from assms(1) have e0: "exitObserver (launchProcess w options p)"
    by (simp add: launch_flags)
  have c1: "filter isOnExit (trace s) =
           (case firstExit evs of None \<Rightarrow> [] | Some (c, sg) \<Rightarrow> [OnExit c sg])"
    unfolding assms(2) by (simp add: isOnExit_run l0 e0)
  have fl: "flagsInv s" unfolding assms(2) using assms(1) by (rule flagsInv_reachable)
  have c2: "exitObserver s = (firstExit evs = None)"
    unfolding assms(2) by (simp add: exitObserver_run e0)
  have li: "listenInv s" unfolding assms(2) by (rule listenInv_reachable)
  then have c3: "exitAfterRemoval (trace s)" and c4: "registered (trace s) = listeners s"
    by (simp_all add: listenInv_def exitAfterRemoval_def registered_def)
  from fl have c5: "processClosed s \<longrightarrow> listeners s = []" by (simp add: flagsInv_def)
  from c1 c2 c3 c4 c5 show ?thesis by blast
qed

lemma exitedClean_firstExit: "firstExit exitedClean = Some (Some 0, None)"
  by (simp add: exitedClean_def)

theorem onExit_called_once_after_removal_witness:
  "(4242::nat) \<noteq> 0 \<and>
   filter isOnExit (trace (run (launchProcess False plainOptions 4242) exitedClean)) =
     [OnExit (Some 0) None] \<and>
   exitAfterRemoval (trace (run (launchProcess False plainOptions 4242) exitedClean)) \<and>
   registered (trace (run (launchProcess False plainOptions 4242) exitedClean)) = []"
proof -
  have h: "(4242::nat) \<noteq> 0" by simp
  note t = onExit_called_once_after_removal[OF h refl, where w=False and options=plainOptions
      and evs=exitedClean]
  from t have "filter isOnExit (trace (run (launchProcess False plainOptions 4242) exitedClean)) =
      (case firstExit exitedClean of None \<Rightarrow> [] | Some (c, sg) \<Rightarrow> [OnExit c sg])"
    by blast
  then have a: "filter isOnExit (trace (run (launchProcess False plainOptions 4242) exitedClean)) =
      [OnExit (Some 0) None]"
    by (simp only: exitedClean_firstExit option.case prod.case)
  from t exitedClean_flags
  have b: "registered (trace (run (launchProcess False plainOptions 4242) exitedClean)) = []"
    by simp
  from t a b h show ?thesis by blast
qed

subsection \<open>Removal of the temporary directories\<close>

text \<open>
  Claim C8 at a failing input: two temporary directories, and the synchronous removal of
  the first one throws. \<^verbatim>\<open>kill()\<close> then never tries to remove the second one, because the
  \<^verbatim>\<open>try\<close> block of \<^verbatim>\<open>killProcess\<close> encloses the whole loop; the error is swallowed. On
  the same input the exit handler starts the removal of both directories.
\<close>

theorem killProcess_skips_directories_after_failure:
  "trace (step firstRemovalFails (launchProcess False twoDirectories 4242) CallKill) =
     trace (launchProcess False twoDirectories 4242) @
       [Log browserLog Kill,
        RemoveEventListeners [(HostExit, KillProcessHandler), (SIGINT, InterruptHandler)],
        KillGroup 4242, RemoveFolderSync ''/tmp/a''] \<and>
   RemoveFolderSync ''/tmp/b''
     \<notin> set (trace (step firstRemovalFails (launchProcess False twoDirectories 4242) CallKill)) \<and>
   fst (killProcess firstRemovalFails (launchProcess False twoDirectories 4242)) = Inr () \<and>
   RemoveFolderAsync ''/tmp/a''
     \<in> set (trace (step firstRemovalFails (launchProcess False twoDirectories 4242)
                (ChildExit (Some 0) None))) \<and>
   RemoveFolderAsync ''/tmp/b''
     \<in> set (trace (step firstRemovalFails (launchProcess False twoDirectories 4242)
                (ChildExit (Some 0) None)))"
  by (simp add: model_defs twoDirectories_def firstRemovalFails_def fst_killProcess)

subsection \<open>The cleanup, read off the events\<close>







subsection \<open>Invocations keep their place\<close>




lemma gracefullyClosing_run: "gracefullyClosing s \<Longrightarrow> gracefullyClosing (run s evs)"
proof (induction evs arbitrary: s)
  case Nil
  then show ?case by simp
next
  case (Cons a evs)
  obtain f e where a: "a = (f, e)" by (cases a)
  from Cons.prems have "gracefullyClosing (step f s e)"
    by (simp add: gracefullyClosing_step del: step.simps)
  from Cons.IH[OF this] show ?case by (simp add: a)
qed















subsection \<open>Resolved promises\<close>



















subsection \<open>The one first close\<close>







subsection \<open>kill\<close>





subsection \<open>A graceful close whose operation rejects\<close>




subsection \<open>A first graceful close, also after the exit\<close>







end
